theory Spec2Isabelle
  imports Main "HOL-Library.Word"
begin

section \<open>Instruction model (assembler.py, lines 7--22)\<close>

type_synonym byte = "8 word"

text \<open>\<^verbatim>\<open>ContextId = tuple[int, ...]\<close> and \<^verbatim>\<open>MarkId = tuple[ContextId, int]\<close>.\<close>

type_synonym ContextId = "int list"
type_synonym MarkId = "ContextId \<times> int"

text \<open>
  Modelled from the spec: the class \<^verbatim>\<open>Op\<close> lives in \<^verbatim>\<open>opcodes.py\<close>, which is not among
  the sources. The spec describes an instruction as an opcode identifier plus zero or more
  immediate data bytes attached to it, emitted as the opcode byte followed by the immediate
  bytes. The assembler only reads \<^verbatim>\<open>extra_data\<close> and calls \<^verbatim>\<open>get_bytes()\<close>.
\<close>

record Op =
  op :: byte
  extra_data :: "byte list"

definition get_bytes :: "Op \<Rightarrow> byte list" where
  "get_bytes i = op i # extra_data i"

text \<open>
  Modelled from the spec: \<^verbatim>\<open>create_push\<close> (also in \<^verbatim>\<open>opcodes.py\<close>) produces the push-style
  instruction for an immediate; its opcode is selected by the opcode table from the byte
  length of the immediate. The table is the parameter \<open>push_op\<close>.
\<close>

definition create_push :: "(nat \<Rightarrow> byte) \<Rightarrow> byte list \<Rightarrow> Op" where
  "create_push push_op data = \<lparr>op = push_op (length data), extra_data = data\<rparr>"

text \<open>
  Modelled from the spec: \<^verbatim>\<open>create_plain_op\<close> (also in \<^verbatim>\<open>opcodes.py\<close>) looks a mnemonic up
  in the opcode table and yields an instruction without immediate data. The table is the
  parameter \<open>optable\<close>.
\<close>

definition create_plain_op :: "(string \<Rightarrow> byte) \<Rightarrow> string \<Rightarrow> Op" where
  "create_plain_op optable name = \<lparr>op = optable name, extra_data = []\<rparr>"

text \<open>
  \<^verbatim>\<open>MarkRef\<close> and \<^verbatim>\<open>MarkDeltaRef\<close> are the two reference tuples; \<^verbatim>\<open>SizedRef\<close> pairs one of
  them with \<^verbatim>\<open>offset_size\<close>, a Python \<^verbatim>\<open>int\<close>.
\<close>

datatype Ref = MarkRef MarkId | MarkDeltaRef MarkId MarkId

datatype SizedRef = SizedRef (ref: Ref) (offset_size: int)

text \<open>
  \<^verbatim>\<open>Asm = Op | Mark | MarkRef | MarkDeltaRef | bytes\<close> and
  \<^verbatim>\<open>SolidAsm = Op | Mark | SizedRef | bytes\<close>: the same union, with the references either
  bare or sized.
\<close>

datatype 'r step = Op Op | Mark MarkId | Ref 'r | Bytes "byte list"

type_synonym Asm = "Ref step"
type_synonym SolidAsm = "SizedRef step"

definition START_SUB_ID :: int where "START_SUB_ID = 0"
definition END_SUB_ID :: int where "END_SUB_ID = 1"

text \<open>
  The exceptions the assembler can raise. An \<^verbatim>\<open>AssertionError\<close> carries the message of the
  failed \<^verbatim>\<open>assert\<close>; the message is kept as the format string's tag with the interpolated
  values:
  \<^item> \<^verbatim>\<open>f'Duplicate key {ident}'\<close> (utils.py, \<^verbatim>\<open>default_unique_error\<close>),
  \<^item> \<^verbatim>\<open>f'Assembly step #{i} has invalid reference to {mid}'\<close>,
  \<^item> \<^verbatim>\<open>f'Assembly step #{i} references negative delta'\<close>,
  \<^item> no message (\<^verbatim>\<open>assert size_bytes <= 6\<close>).
  \<^verbatim>\<open>KeyError\<close> is a failed dictionary lookup; \<^verbatim>\<open>ValueError\<close> and \<^verbatim>\<open>OverflowError\<close> are what
  \<^verbatim>\<open>int.to_bytes\<close> raises.
\<close>

datatype message =
    Duplicate_key MarkId
  | Invalid_reference nat MarkId
  | Negative_delta nat
  | No_message

datatype error =
    AssertionError message
  | KeyError MarkId
  | ValueError
  | OverflowError

section \<open>Sizes (assembler.py, lines 25--56)\<close>

definition set_size :: "SizedRef \<Rightarrow> int \<Rightarrow> SizedRef" where
  "set_size r size' = SizedRef (ref r) size'"

text \<open>The final \<^verbatim>\<open>else: raise TypeError\<close> of both functions is outside the declared unions.\<close>

fun min_static_size :: "Asm \<Rightarrow> int" where
  "min_static_size (Op i) = 1 + int (length (extra_data i))"
| "min_static_size (Bytes bs) = int (length bs)"
| "min_static_size (Ref r) = 1"
| "min_static_size (Mark m) = 0"

fun get_size :: "SolidAsm \<Rightarrow> int" where
  "get_size (Op i) = 1 + int (length (extra_data i))"
| "get_size (Bytes bs) = int (length bs)"
| "get_size (Ref r) = 1 + offset_size r"
| "get_size (Mark m) = 0"

text \<open>
  Python's \<^verbatim>\<open>int.bit_length()\<close>: the number of bits of the absolute value, 0 for 0.
\<close>

fun bit_length_nat :: "nat \<Rightarrow> nat" where
  "bit_length_nat n = (if n = 0 then 0 else Suc (bit_length_nat (n div 2)))"

declare bit_length_nat.simps [simp del]

definition bit_length :: "int \<Rightarrow> int" where
  "bit_length x = int (bit_length_nat (nat \<bar>x\<bar>))"

definition needed_bytes :: "int \<Rightarrow> int" where
  "needed_bytes x = max ((bit_length x + 7) div 8) 1"

section \<open>Solidifier (assembler.py, lines 59--77)\<close>

text \<open>
  The \<^verbatim>\<open>while\<close> loop of \<^verbatim>\<open>get_min_static_size_bytes\<close>; \<^verbatim>\<open>1 << (8 * dest_bytes)\<close> is
  \<open>2 ^ (8 * dest_bytes)\<close>. The counter starts at 1 and only grows, so it is a \<open>nat\<close>.
\<close>

function dest_bytes_loop :: "int \<Rightarrow> int \<Rightarrow> nat \<Rightarrow> nat" where
  "dest_bytes_loop min_static_len ref_count dest_bytes =
     (if 2 ^ (8 * dest_bytes) - 1 < min_static_len + int dest_bytes * ref_count
      then dest_bytes_loop min_static_len ref_count (dest_bytes + 1)
      else dest_bytes)"
  by pat_completeness auto
termination
proof (relation "measure (\<lambda>(l, r, d). nat (\<bar>l\<bar> + \<bar>r\<bar>) + 1 - d)")
  show "wf (measure (\<lambda>(l, r, d). nat (\<bar>l\<bar> + \<bar>r\<bar>) + 1 - d))" by simp
next
  fix l r :: int and d :: nat
  assume c: "2 ^ (8 * d) - 1 < l + int d * r"
  have "d < nat (\<bar>l\<bar> + \<bar>r\<bar>) + 1"
  proof (rule ccontr)
    assume "\<not> d < nat (\<bar>l\<bar> + \<bar>r\<bar>) + 1"
    then have big: "\<bar>l\<bar> + \<bar>r\<bar> < int d" by simp
    then have l: "l \<le> int d" and r: "r \<le> int d" and r0: "0 \<le> int d" by simp_all
    have "int d * r \<le> int d * int d" using r r0 by (rule mult_left_mono)
    with l have le: "l + int d * r \<le> int (d + d * d)" by simp
    have "d < 2 ^ d" by (rule less_exp)
    then have "d * d < 2 ^ d * 2 ^ d" by (simp add: mult_strict_mono)
    with \<open>d < 2 ^ d\<close> have "d + d * d < 2 ^ d + 2 ^ d * 2 ^ d" by (rule add_strict_mono)
    also have "\<dots> \<le> 2 ^ d * 2 ^ d + 2 ^ d * 2 ^ d" by simp
    also have "\<dots> = 2 ^ (2 * d + 1)" by (simp add: power_add mult_2)
    also have "\<dots> \<le> 2 ^ (8 * d)"
    proof (rule power_increasing)
      from big have "0 < d" by simp
      then show "2 * d + 1 \<le> 8 * d" by simp
    qed simp
    finally have "d + d * d < 2 ^ (8 * d)" .
    then have "int (d + d * d) < int (2 ^ (8 * d))" by (simp only: of_nat_less_iff)
    then have "int (d + d * d) \<le> 2 ^ (8 * d) - 1" by simp
    with le c show False by simp
  qed
  then show "((l, r, d + 1), (l, r, d)) \<in> measure (\<lambda>(l, r, d). nat (\<bar>l\<bar> + \<bar>r\<bar>) + 1 - d)"
    by (simp add: Suc_diff_le)
qed

declare dest_bytes_loop.simps [simp del]

text \<open>
  \<^verbatim>\<open>ref_count\<close> sums the booleans \<^verbatim>\<open>isinstance(step, (MarkRef, MarkDeltaRef))\<close>.
\<close>

fun is_ref :: "'r step \<Rightarrow> bool" where
  "is_ref (Ref r) = True"
| "is_ref _ = False"

definition get_min_static_size_bytes :: "Asm list \<Rightarrow> int" where
  "get_min_static_size_bytes asm =
     (let ref_count = (\<Sum>step\<leftarrow>asm. if is_ref step then 1 else 0);
          min_static_len = sum_list (map min_static_size asm)
      in int (dest_bytes_loop min_static_len ref_count 1))"

text \<open>
  The list comprehension of \<^verbatim>\<open>asm_to_solid\<close> wraps every reference and keeps every other
  step; \<^verbatim>\<open>assert size_bytes <= 6\<close> has no message.
\<close>

definition asm_to_solid :: "Asm list \<Rightarrow> error + SolidAsm list" where
  "asm_to_solid asm =
     (let size_bytes = get_min_static_size_bytes asm
      in if size_bytes \<le> 6
         then Inr (map (map_step (\<lambda>r. SizedRef r size_bytes)) asm)
         else Inl (AssertionError No_message))"

section \<open>Validator (utils.py, lines 8--28; assembler.py, lines 80--98)\<close>

text \<open>The only caller builds a dictionary keyed by \<^verbatim>\<open>MarkId\<close>, with the default \<^verbatim>\<open>on_dup\<close>.\<close>

definition default_unique_error :: "MarkId \<Rightarrow> message" where
  "default_unique_error ident = Duplicate_key ident"

definition set_unique :: "(MarkId \<rightharpoonup> 'v) \<Rightarrow> MarkId \<Rightarrow> 'v \<Rightarrow> error + (MarkId \<rightharpoonup> 'v)" where
  "set_unique d k v =
     (if d k \<noteq> None then Inl (AssertionError (default_unique_error k)) else Inr (d(k \<mapsto> v)))"

fun build_unique_dict_loop ::
  "(MarkId \<rightharpoonup> 'v) \<Rightarrow> (MarkId \<times> 'v) list \<Rightarrow> error + (MarkId \<rightharpoonup> 'v)" where
  "build_unique_dict_loop new_dict [] = Inr new_dict"
| "build_unique_dict_loop new_dict ((key, value) # kvs) =
     (case set_unique new_dict key value of
        Inl e \<Rightarrow> Inl e
      | Inr d \<Rightarrow> build_unique_dict_loop d kvs)"

definition build_unique_dict :: "(MarkId \<times> 'v) list \<Rightarrow> error + (MarkId \<rightharpoonup> 'v)" where
  "build_unique_dict kvs = build_unique_dict_loop Map.empty kvs"

text \<open>
  The generator \<^verbatim>\<open>(step.mid, i) for i, step in enumerate(asm) if isinstance(step, Mark)\<close>.
\<close>

fun mark_entries :: "(nat \<times> Asm) list \<Rightarrow> (MarkId \<times> nat) list" where
  "mark_entries [] = []"
| "mark_entries ((i, Mark mid) # rest) = (mid, i) # mark_entries rest"
| "mark_entries ((i, step) # rest) = mark_entries rest"

text \<open>One iteration of the checking loop: the asserts of a step, in the source's order.\<close>

fun check_step :: "(MarkId \<rightharpoonup> nat) \<Rightarrow> nat \<Rightarrow> Asm \<Rightarrow> error + unit" where
  "check_step indices i (Ref (MarkRef mid)) =
     (if indices mid = None then Inl (AssertionError (Invalid_reference i mid)) else Inr ())"
| "check_step indices i (Ref (MarkDeltaRef start end')) =
     (case indices start of
        None \<Rightarrow> Inl (AssertionError (Invalid_reference i start))
      | Some si \<Rightarrow>
          (case indices end' of
             None \<Rightarrow> Inl (AssertionError (Invalid_reference i end'))
           | Some ei \<Rightarrow> if ei > si then Inr () else Inl (AssertionError (Negative_delta i))))"
| "check_step indices i step = Inr ()"

fun check_steps :: "(MarkId \<rightharpoonup> nat) \<Rightarrow> (nat \<times> Asm) list \<Rightarrow> error + unit" where
  "check_steps indices [] = Inr ()"
| "check_steps indices ((i, step) # rest) =
     (case check_step indices i step of
        Inl e \<Rightarrow> Inl e
      | Inr u \<Rightarrow> check_steps indices rest)"

definition validate_asm :: "Asm list \<Rightarrow> error + unit" where
  "validate_asm asm =
     (case build_unique_dict (mark_entries (enumerate 0 asm)) of
        Inl e \<Rightarrow> Inl e
      | Inr indices \<Rightarrow> check_steps indices (enumerate 0 asm))"

section \<open>Offset calculator (assembler.py, lines 101--108)\<close>

fun get_solid_offsets_loop ::
  "(MarkId \<rightharpoonup> int) \<Rightarrow> int \<Rightarrow> SolidAsm list \<Rightarrow> (MarkId \<rightharpoonup> int)" where
  "get_solid_offsets_loop mark_offsets offset [] = mark_offsets"
| "get_solid_offsets_loop mark_offsets offset (step # asm) =
     get_solid_offsets_loop
       (case step of Mark mid \<Rightarrow> mark_offsets(mid \<mapsto> offset) | _ \<Rightarrow> mark_offsets)
       (offset + get_size step) asm"

definition get_solid_offsets :: "SolidAsm list \<Rightarrow> (MarkId \<rightharpoonup> int)" where
  "get_solid_offsets asm = get_solid_offsets_loop Map.empty 0 asm"

section \<open>Shrinker (assembler.py, lines 111--143)\<close>

text \<open>A dictionary subscript \<^verbatim>\<open>mark_offsets[k]\<close> raises \<^verbatim>\<open>KeyError\<close> on a missing key.\<close>

definition lookup :: "(MarkId \<rightharpoonup> int) \<Rightarrow> MarkId \<Rightarrow> error + int" where
  "lookup mark_offsets k = (case mark_offsets k of None \<Rightarrow> Inl (KeyError k) | Some v \<Rightarrow> Inr v)"

text \<open>
  The value of a reference, as both \<^verbatim>\<open>shorten_asm_once\<close> and \<^verbatim>\<open>solid_asm_to_bytecode\<close>
  compute it: \<^verbatim>\<open>mark_offsets[ref.mid]\<close>, or \<^verbatim>\<open>mark_offsets[ref.end] - mark_offsets[ref.start]\<close>
  (the left operand is looked up first).
\<close>

fun ref_value :: "(MarkId \<rightharpoonup> int) \<Rightarrow> Ref \<Rightarrow> error + int" where
  "ref_value mark_offsets (MarkRef mid) = lookup mark_offsets mid"
| "ref_value mark_offsets (MarkDeltaRef start end') =
     (case lookup mark_offsets end' of
        Inl e \<Rightarrow> Inl e
      | Inr ev \<Rightarrow>
          (case lookup mark_offsets start of
             Inl e \<Rightarrow> Inl e
           | Inr sv \<Rightarrow> Inr (ev - sv)))"

text \<open>
  One iteration of the loop of \<^verbatim>\<open>shorten_asm_once\<close>: whether the step changed, and the step
  that is appended to \<^verbatim>\<open>shortened_steps\<close>.
\<close>

fun shorten_step :: "(MarkId \<rightharpoonup> int) \<Rightarrow> SolidAsm \<Rightarrow> error + (bool \<times> SolidAsm)" where
  "shorten_step mark_offsets (Ref step) =
     (case ref_value mark_offsets (ref step) of
        Inl e \<Rightarrow> Inl e
      | Inr v \<Rightarrow>
          (let req_size = needed_bytes v
           in if req_size \<noteq> offset_size step
              then Inr (True, Ref (set_size step req_size))
              else Inr (False, Ref step)))"
| "shorten_step mark_offsets step = Inr (False, step)"

text \<open>
  The loop itself: \<^verbatim>\<open>changed_any\<close> is true when some iteration set it, and the steps are
  collected in order; the first failing lookup ends the loop.
\<close>

fun shorten_steps :: "(MarkId \<rightharpoonup> int) \<Rightarrow> SolidAsm list \<Rightarrow> error + (bool \<times> SolidAsm list)" where
  "shorten_steps mark_offsets [] = Inr (False, [])"
| "shorten_steps mark_offsets (step # asm) =
     (case shorten_step mark_offsets step of
        Inl e \<Rightarrow> Inl e
      | Inr (changed, step') \<Rightarrow>
          (case shorten_steps mark_offsets asm of
             Inl e \<Rightarrow> Inl e
           | Inr (changed_any, shortened_steps) \<Rightarrow>
               Inr (changed \<or> changed_any, step' # shortened_steps)))"

definition shorten_asm_once :: "SolidAsm list \<Rightarrow> error + (bool \<times> SolidAsm list)" where
  "shorten_asm_once asm = shorten_steps (get_solid_offsets asm) asm"

text \<open>
  \<^verbatim>\<open>while changed_any and max_iters\<close>: a Python \<^verbatim>\<open>int\<close> is true when it is not 0, so a
  negative budget never stops the loop, which then may not return (\<open>None\<close>).
\<close>

partial_function (option) shorten_asm_loop ::
  "bool \<Rightarrow> int \<Rightarrow> SolidAsm list \<Rightarrow> (error + SolidAsm list) option" where
  "shorten_asm_loop changed_any max_iters asm =
     (if changed_any \<and> max_iters \<noteq> 0
      then (case shorten_asm_once asm of
              Inl e \<Rightarrow> Some (Inl e)
            | Inr (changed_any', asm') \<Rightarrow> shorten_asm_loop changed_any' (max_iters - 1) asm')
      else Some (Inr asm))"

text \<open>The parameter \<^verbatim>\<open>max_iters: int = 100\<close>: \<open>None\<close> is the omitted argument.\<close>

definition shorten_asm :: "SolidAsm list \<Rightarrow> int option \<Rightarrow> (error + SolidAsm list) option" where
  "shorten_asm asm max_iters_arg =
     (let max_iters = (case max_iters_arg of None \<Rightarrow> 100 | Some n \<Rightarrow> n)
      in shorten_asm_loop True max_iters asm)"

section \<open>Emitter (assembler.py, lines 146--179)\<close>

text \<open>
  Python's \<^verbatim>\<open>int.to_bytes(length, 'big')\<close>: \<^verbatim>\<open>ValueError\<close> for a negative length,
  \<^verbatim>\<open>OverflowError\<close> for a negative value or one that does not fit, else the big-endian digits.
\<close>

fun be_bytes :: "nat \<Rightarrow> nat \<Rightarrow> byte list" where
  "be_bytes 0 v = []"
| "be_bytes (Suc n) v = be_bytes n (v div 256) @ [of_nat (v mod 256)]"

definition to_bytes :: "int \<Rightarrow> int \<Rightarrow> error + byte list" where
  "to_bytes v len =
     (if len < 0 then Inl ValueError
      else if v < 0 \<or> 256 ^ nat len \<le> v then Inl OverflowError
      else Inr (be_bytes (nat len) (nat v)))"

text \<open>Python's \<^verbatim>\<open>int.from_bytes(bs, 'big')\<close>, to read an emitted immediate back.\<close>

definition from_bytes :: "byte list \<Rightarrow> nat" where
  "from_bytes bs = foldl (\<lambda>acc b. acc * 256 + unat b) 0 bs"

fun emit_step :: "(nat \<Rightarrow> byte) \<Rightarrow> (MarkId \<rightharpoonup> int) \<Rightarrow> SolidAsm \<Rightarrow> error + byte list" where
  "emit_step push_op mark_offsets (Op i) = Inr (get_bytes i)"
| "emit_step push_op mark_offsets (Mark mid) = Inr []"
| "emit_step push_op mark_offsets (Ref step) =
     (case ref_value mark_offsets (ref step) of
        Inl e \<Rightarrow> Inl e
      | Inr v \<Rightarrow>
          (case to_bytes v (offset_size step) of
             Inl e \<Rightarrow> Inl e
           | Inr data \<Rightarrow> Inr (get_bytes (create_push push_op data))))"
| "emit_step push_op mark_offsets (Bytes bs) = Inr bs"

fun emit_steps ::
  "(nat \<Rightarrow> byte) \<Rightarrow> (MarkId \<rightharpoonup> int) \<Rightarrow> byte list \<Rightarrow> SolidAsm list \<Rightarrow> error + byte list" where
  "emit_steps push_op mark_offsets final_bytes [] = Inr final_bytes"
| "emit_steps push_op mark_offsets final_bytes (step # asm) =
     (case emit_step push_op mark_offsets step of
        Inl e \<Rightarrow> Inl e
      | Inr bs \<Rightarrow> emit_steps push_op mark_offsets (final_bytes @ bs) asm)"

definition solid_asm_to_bytecode :: "(nat \<Rightarrow> byte) \<Rightarrow> SolidAsm list \<Rightarrow> error + byte list" where
  "solid_asm_to_bytecode push_op asm = emit_steps push_op (get_solid_offsets asm) [] asm"

text \<open>
  The parameter \<^verbatim>\<open>max_reduce_iters: int = -1\<close>: \<open>None\<close> is the omitted argument. The budget
  is always handed on to \<^verbatim>\<open>shorten_asm\<close> explicitly.
\<close>

definition asm_to_bytecode ::
  "(nat \<Rightarrow> byte) \<Rightarrow> Asm list \<Rightarrow> int option \<Rightarrow> (error + byte list) option" where
  "asm_to_bytecode push_op asm max_reduce_iters_arg =
     (let max_reduce_iters = (case max_reduce_iters_arg of None \<Rightarrow> - 1 | Some n \<Rightarrow> n)
      in case validate_asm asm of
           Inl e \<Rightarrow> Some (Inl e)
         | Inr u \<Rightarrow>
             (case asm_to_solid asm of
                Inl e \<Rightarrow> Some (Inl e)
              | Inr solid_asm \<Rightarrow>
                  (case shorten_asm solid_asm (Some max_reduce_iters) of
                     None \<Rightarrow> None
                   | Some (Inl e) \<Rightarrow> Some (Inl e)
                   | Some (Inr solid_asm') \<Rightarrow> Some (solid_asm_to_bytecode push_op solid_asm'))))"

section \<open>Deploy builder (assembler.py, lines 182--197)\<close>

definition minimal_deploy ::
  "(string \<Rightarrow> byte) \<Rightarrow> (nat \<Rightarrow> byte) \<Rightarrow> byte list \<Rightarrow> (error + byte list) option" where
  "minimal_deploy optable push_op runtime =
     (let start = ([], START_SUB_ID); end' = ([], END_SUB_ID)
      in asm_to_bytecode push_op
           [Ref (MarkDeltaRef start end'),
            Op (create_plain_op optable ''dup1''),
            Ref (MarkRef start),
            Op (create_plain_op optable ''push0''),
            Op (create_plain_op optable ''codecopy''),
            Op (create_plain_op optable ''push0''),
            Op (create_plain_op optable ''return''),
            Mark start,
            Bytes runtime,
            Mark end']
           None)"

section \<open>Predicates used to state the properties\<close>

text \<open>
  A reference fits when both its labels have an offset and its value is a non-negative
  number below \<open>256 ^ width\<close>, for a non-negative width: what \<^verbatim>\<open>to_bytes\<close> accepts.
\<close>

fun ref_fits :: "(MarkId \<rightharpoonup> int) \<Rightarrow> SolidAsm \<Rightarrow> bool" where
  "ref_fits mark_offsets (Ref step) =
     (case ref_value mark_offsets (ref step) of
        Inl e \<Rightarrow> False
      | Inr v \<Rightarrow> 0 \<le> offset_size step \<and> 0 \<le> v \<and> v < 256 ^ nat (offset_size step))"
| "ref_fits mark_offsets step = True"

text \<open>
  The quantities of the solidifier's contract, written from its words and not through the
  functions of the code. \<open>L\<close> adds, step by step, 1 plus the number of immediate bytes for
  an instruction, the number of bytes for raw bytes, 1 for a reference (its opcode byte
  only) and nothing for a label. \<open>R\<close> is the number of steps that are references. The
  required width is the smallest positive \<open>w\<close> with \<open>L + w * R \<le> 2 ^ (8 * w) - 1\<close>.
\<close>

definition static_length :: "Asm list \<Rightarrow> int" where
  "static_length asm =
     (\<Sum>step\<leftarrow>asm. case step of
                     Op i \<Rightarrow> 1 + int (length (extra_data i))
                   | Bytes bs \<Rightarrow> int (length bs)
                   | Ref r \<Rightarrow> 1
                   | Mark mid \<Rightarrow> 0)"

definition reference_count :: "Asm list \<Rightarrow> int" where
  "reference_count asm = int (length (filter (\<lambda>step. \<exists>r. step = Ref r) asm))"

definition width_suffices :: "Asm list \<Rightarrow> nat \<Rightarrow> bool" where
  "width_suffices asm w =
     (1 \<le> w \<and> static_length asm + int w * reference_count asm \<le> 2 ^ (8 * w) - 1)"

definition required_width :: "Asm list \<Rightarrow> nat" where
  "required_width asm = (LEAST w. width_suffices asm w)"

text \<open>
  The validator's contract: the identities of the labels of a stream, in order; a label
  \<open>start\<close> at a position strictly before a label \<open>end\<close>; and a step whose references name
  only labels of the stream, with the labels of a distance reference in that order.
\<close>

fun mark_ids :: "'r step list \<Rightarrow> MarkId list" where
  "mark_ids [] = []"
| "mark_ids (Mark mid # asm) = mid # mark_ids asm"
| "mark_ids (step # asm) = mark_ids asm"

definition label_before :: "'r step list \<Rightarrow> MarkId \<Rightarrow> MarkId \<Rightarrow> bool" where
  "label_before asm start end' =
     (\<exists>i j. i < j \<and> j < length asm \<and> asm ! i = Mark start \<and> asm ! j = Mark end')"

fun ref_ok :: "Asm list \<Rightarrow> Asm \<Rightarrow> bool" where
  "ref_ok asm (Ref (MarkRef mid)) = (Mark mid \<in> set asm)"
| "ref_ok asm (Ref (MarkDeltaRef start end')) =
     (Mark start \<in> set asm \<and> Mark end' \<in> set asm \<and> label_before asm start end')"
| "ref_ok asm step = True"

definition well_formed :: "Asm list \<Rightarrow> bool" where
  "well_formed asm = (distinct (mark_ids asm) \<and> list_all (ref_ok asm) asm)"

text \<open>
  The step position that a message names: the \<^verbatim>\<open>#{i}\<close> of its format string, if it has one.
\<close>

fun message_position :: "message \<Rightarrow> nat option" where
  "message_position (Duplicate_key ident) = None"
| "message_position (Invalid_reference i mid) = Some i"
| "message_position (Negative_delta i) = Some i"
| "message_position No_message = None"

text \<open>
  The labels a reference names; a stream all of whose sized references name keys of its own
  offset dictionary; and a number of shrink passes in a row.
\<close>

fun named_marks :: "Ref \<Rightarrow> MarkId list" where
  "named_marks (MarkRef mid) = [mid]"
| "named_marks (MarkDeltaRef start end') = [start, end']"

fun step_resolvable :: "(MarkId \<rightharpoonup> int) \<Rightarrow> SolidAsm \<Rightarrow> bool" where
  "step_resolvable mark_offsets (Ref step) =
     list_all (\<lambda>mid. mark_offsets mid \<noteq> None) (named_marks (ref step))"
| "step_resolvable mark_offsets step = True"

definition refs_resolvable :: "SolidAsm list \<Rightarrow> bool" where
  "refs_resolvable solid = list_all (step_resolvable (get_solid_offsets solid)) solid"

fun shorten_passes :: "nat \<Rightarrow> SolidAsm list \<Rightarrow> error + SolidAsm list" where
  "shorten_passes 0 solid = Inr solid"
| "shorten_passes (Suc n) solid =
     (case shorten_asm_once solid of
        Inl e \<Rightarrow> Inl e
      | Inr (changed_any, solid') \<Rightarrow> shorten_passes n solid')"

text \<open>
  The stream that \<open>minimal_deploy\<close> assembles, with the widths \<open>w1\<close> and \<open>w2\<close> on its
  distance reference and its absolute reference, and the same stream without widths.
\<close>

definition deploy_solid :: "(string \<Rightarrow> byte) \<Rightarrow> byte list \<Rightarrow> int \<Rightarrow> int \<Rightarrow> SolidAsm list" where
  "deploy_solid optable runtime w1 w2 =
     [Ref (SizedRef (MarkDeltaRef ([], 0) ([], 1)) w1),
      Op (create_plain_op optable ''dup1''),
      Ref (SizedRef (MarkRef ([], 0)) w2),
      Op (create_plain_op optable ''push0''),
      Op (create_plain_op optable ''codecopy''),
      Op (create_plain_op optable ''push0''),
      Op (create_plain_op optable ''return''),
      Mark ([], 0),
      Bytes runtime,
      Mark ([], 1)]"

definition deploy_asm :: "(string \<Rightarrow> byte) \<Rightarrow> byte list \<Rightarrow> Asm list" where
  "deploy_asm optable runtime = map (map_step ref) (deploy_solid optable runtime 0 0)"

text \<open>A step whose width, if it is a sized reference, is not negative.\<close>

fun nonneg_width :: "SolidAsm \<Rightarrow> bool" where
  "nonneg_width (Ref step) = (0 \<le> offset_size step)"
| "nonneg_width step = True"

text \<open>
  A stream whose shrinking takes one pass per reference. Region 0 is a label pair around 255
  bytes; region \<open>k + 1\<close> is a label pair around 253 bytes and the distance reference to
  region \<open>k\<close>, so that its own distance is 254 plus the width of that reference. The
  reference to the last region stands in front. \<open>chain_value\<close> is the distance of region
  \<open>k\<close>, and \<open>stage j\<close> the widths after \<open>j\<close> passes: 1 below \<open>j\<close>, 2 from \<open>j\<close> on.
\<close>

definition chain_start :: "nat \<Rightarrow> MarkId" where
  "chain_start k = ([int k], 0)"

definition chain_end :: "nat \<Rightarrow> MarkId" where
  "chain_end k = ([int k], 1)"

fun chain_regions :: "(nat \<Rightarrow> int) \<Rightarrow> nat \<Rightarrow> SolidAsm list" where
  "chain_regions w 0 = [Mark (chain_start 0), Bytes (replicate 255 0), Mark (chain_end 0)]"
| "chain_regions w (Suc n) =
     [Mark (chain_start (Suc n)), Bytes (replicate 253 0),
      Ref (SizedRef (MarkDeltaRef (chain_start n) (chain_end n)) (w n)),
      Mark (chain_end (Suc n))] @ chain_regions w n"

definition chain_solid :: "(nat \<Rightarrow> int) \<Rightarrow> nat \<Rightarrow> SolidAsm list" where
  "chain_solid w n =
     Ref (SizedRef (MarkDeltaRef (chain_start n) (chain_end n)) (w n)) # chain_regions w n"

definition chain_asm :: "nat \<Rightarrow> Asm list" where
  "chain_asm n = map (map_step ref) (chain_solid (\<lambda>k. 0) n)"

fun chain_value :: "(nat \<Rightarrow> int) \<Rightarrow> nat \<Rightarrow> int" where
  "chain_value w 0 = 255"
| "chain_value w (Suc k) = 254 + w k"

definition stage :: "nat \<Rightarrow> nat \<Rightarrow> int" where
  "stage j k = (if k < j then 1 else 2)"

section \<open>Facts about \<open>needed_bytes\<close>\<close>

lemma bit_length_nat_0 [simp]: "bit_length_nat 0 = 0"
  by (simp add: bit_length_nat.simps)

lemma bit_length_nat_pos: "0 < n \<Longrightarrow> bit_length_nat n = Suc (bit_length_nat (n div 2))"
  by (subst bit_length_nat.simps) simp

lemma bit_length_nat_upper: "n < 2 ^ bit_length_nat n"
proof (induction n rule: bit_length_nat.induct)
  case (1 n)
  show ?case
  proof (cases "n = 0")
    case True
    then show ?thesis by simp
  next
    case False
    with 1 have "n div 2 < 2 ^ bit_length_nat (n div 2)" by simp
    then have "n < 2 * 2 ^ bit_length_nat (n div 2)" by linarith
    with False show ?thesis by (simp add: bit_length_nat_pos)
  qed
qed

lemma bit_length_nat_lower: "0 < n \<Longrightarrow> 2 ^ (bit_length_nat n - 1) \<le> n"
proof (induction n rule: bit_length_nat.induct)
  case (1 n)
  show ?case
  proof (cases "n div 2 = 0")
    case True
    with 1(2) show ?thesis by (simp add: bit_length_nat_pos)
  next
    case False
    then have pos: "0 < n div 2" by simp
    with 1 have "2 ^ (bit_length_nat (n div 2) - 1) \<le> n div 2" by simp
    then have "2 * 2 ^ (bit_length_nat (n div 2) - 1) \<le> n" by linarith
    moreover have "bit_length_nat (n div 2) = Suc (bit_length_nat (n div 2) - 1)"
      using pos by (simp add: bit_length_nat_pos)
    ultimately have "2 ^ bit_length_nat (n div 2) \<le> n"
      by (metis power_Suc)
    with 1(2) show ?thesis by (simp add: bit_length_nat_pos)
  qed
qed

lemma bit_length_nat_le: "n < 2 ^ k \<Longrightarrow> bit_length_nat n \<le> k"
proof (rule ccontr)
  assume lt: "n < 2 ^ k" and "\<not> bit_length_nat n \<le> k"
  then have k: "k \<le> bit_length_nat n - 1" and pos: "0 < n"
    by (auto intro: Nat.gr0I)
  have "(2::nat) ^ k \<le> 2 ^ (bit_length_nat n - 1)"
    using k by (simp add: power_increasing)
  also have "\<dots> \<le> n" using pos by (rule bit_length_nat_lower)
  finally show False using lt by simp
qed

lemma bit_length_nat_ge: "2 ^ k \<le> n \<Longrightarrow> k < bit_length_nat n"
proof (rule ccontr)
  assume ge: "2 ^ k \<le> n" and "\<not> k < bit_length_nat n"
  then have "bit_length_nat n \<le> k" by simp
  then have "(2::nat) ^ bit_length_nat n \<le> 2 ^ k" by (simp add: power_increasing)
  with bit_length_nat_upper [of n] ge show False by simp
qed

lemma div8_le: "(y::int) \<le> 8 * ((y + 7) div 8)"
  by presburger

lemma int_less_pow2: "0 \<le> x \<Longrightarrow> (x < 2 ^ k) = (nat x < 2 ^ k)"
proof -
  assume "0 \<le> x"
  then have "x = int (nat x)" by simp
  moreover have "(int (nat x) < 2 ^ k) = (nat x < 2 ^ k)"
    using of_nat_less_iff [of "nat x" "2 ^ k", where 'a = int] by simp
  ultimately show ?thesis by simp
qed

lemma bit_length_of_nonneg: "0 \<le> x \<Longrightarrow> bit_length x = int (bit_length_nat (nat x))"
  by (simp add: bit_length_def)

lemma int_le_8_max_div8: "int b \<le> 8 * max ((int b + 7) div 8) 1"
proof -
  have "int b \<le> 8 * ((int b + 7) div 8)" by (rule div8_le)
  also have "\<dots> \<le> 8 * max ((int b + 7) div 8) 1" by (simp only: mult_le_cancel_left_pos max.cobounded1)
  finally show ?thesis .
qed


lemma needed_bytes_ge1: "1 \<le> needed_bytes x"
  unfolding needed_bytes_def by (rule max.cobounded2)

lemma needed_bytes_upper_nat:
  assumes "0 \<le> x"
  shows "nat x < 2 ^ nat (8 * needed_bytes x)"
proof -
  let ?b = "bit_length_nat (nat x)"
  have b: "bit_length x = int ?b" using assms by (rule bit_length_of_nonneg)
  have "int ?b \<le> 8 * needed_bytes x"
    unfolding needed_bytes_def b by (rule int_le_8_max_div8)
  then have "?b \<le> nat (8 * needed_bytes x)" by linarith
  then have "(2::nat) ^ ?b \<le> 2 ^ nat (8 * needed_bytes x)"
    by (rule power_increasing) simp
  with bit_length_nat_upper [of "nat x"] show ?thesis by (rule less_le_trans)
qed

lemma needed_bytes_upper: "0 \<le> x \<Longrightarrow> x < 2 ^ nat (8 * needed_bytes x)"
  using needed_bytes_upper_nat [of x] int_less_pow2 [of x "nat (8 * needed_bytes x)"] by blast






lemma needed_bytes_le:
  assumes "0 \<le> x" and "x < 2 ^ (8 * k)" and "1 \<le> k"
  shows "needed_bytes x \<le> int k"
proof -
  let ?b = "bit_length_nat (nat x)"
  have b: "bit_length x = int ?b" using assms(1) by (rule bit_length_of_nonneg)
  have "nat x < 2 ^ (8 * k)" using assms(2) int_less_pow2 [OF assms(1)] by blast
  then have "?b \<le> 8 * k" by (rule bit_length_nat_le)
  then have "int ?b \<le> int (8 * k)" by (simp only: of_nat_le_iff)
  also have "int (8 * k) = 8 * int k" by simp
  finally have "int ?b + 7 < 8 * (int k + 1)" by simp
  then have "(int ?b + 7) div 8 < int k + 1" by presburger
  then have "(int ?b + 7) div 8 \<le> int k" by linarith
  moreover have "1 \<le> int k" using assms(3) by linarith
  ultimately show ?thesis unfolding needed_bytes_def b by (rule max.boundedI)
qed

lemma needed_bytes_small: "0 \<le> x \<Longrightarrow> x \<le> 255 \<Longrightarrow> needed_bytes x = 1"
  using needed_bytes_le [of x 1] needed_bytes_ge1 [of x] by simp


lemma needed_bytes_gt:
  assumes "0 \<le> x" and "2 ^ (8 * k) \<le> x"
  shows "int k < needed_bytes x"
proof (rule ccontr)
  assume "\<not> int k < needed_bytes x"
  then have "nat (8 * needed_bytes x) \<le> 8 * k" by simp
  then have "(2::int) ^ nat (8 * needed_bytes x) \<le> 2 ^ (8 * k)"
    by (rule power_increasing) simp
  with needed_bytes_upper [OF assms(1)] assms(2) show False by simp
qed

lemma needed_bytes_eq:
  assumes "0 \<le> x" and "2 ^ (8 * k) \<le> x" and "x < 2 ^ (8 * Suc k)"
  shows "needed_bytes x = int (Suc k)"
proof -
  have "needed_bytes x \<le> int (Suc k)" using assms(1,3) by (rule needed_bytes_le) simp
  moreover have "int k < needed_bytes x" using assms(1,2) by (rule needed_bytes_gt)
  ultimately show ?thesis by simp
qed




section \<open>The shrink pass at a fixed point\<close>


lemma shorten_step_unchanged:
  "shorten_step mo step = Inr (False, step') \<Longrightarrow> step' = step"
  by (cases step) (auto simp: Let_def split: sum.splits if_splits)

lemma shorten_steps_unchanged:
  "shorten_steps mo asm = Inr (False, asm') \<Longrightarrow> asm' = asm"
proof (induction asm arbitrary: asm')
  case Nil
  then show ?case by simp
next
  case (Cons step asm)
  from Cons.prems obtain step' rest where
    s: "shorten_step mo step = Inr (False, step')" and
    r: "shorten_steps mo asm = Inr (False, rest)" and
    a: "asm' = step' # rest"
    by (auto split: sum.splits prod.splits)
  from s have "step' = step" by (rule shorten_step_unchanged)
  moreover from r have "rest = asm" by (rule Cons.IH)
  ultimately show ?case using a by simp
qed

text \<open>
  C5. When one pass of the shrinker over a resolved stream reports no change, the stream it
  returns equals its input, and a further pass over that stream reports no change and
  returns the same stream again.
\<close>

theorem shorten_asm_once_fixed_point:
  assumes "shorten_asm_once s = Inr (False, s')"
  shows "s' = s \<and> shorten_asm_once s' = Inr (False, s')"
proof -
  from assms have "s' = s" unfolding shorten_asm_once_def by (rule shorten_steps_unchanged)
  with assms show ?thesis by simp
qed

theorem shorten_asm_once_fixed_point_witness:
  "shorten_asm_once
     [Ref (SizedRef (MarkDeltaRef ([], 0) ([], 1)) 1), Mark ([], 0), Bytes [1, 2, 3], Mark ([], 1)]
   = Inr (False,
     [Ref (SizedRef (MarkDeltaRef ([], 0) ([], 1)) 1), Mark ([], 0), Bytes [1, 2, 3], Mark ([], 1)])
   \<and> ([Ref (SizedRef (MarkDeltaRef ([], 0) ([], 1)) 1), Mark ([], 0), Bytes [1, 2, 3], Mark ([], 1)]
      = [Ref (SizedRef (MarkDeltaRef ([], 0) ([], 1)) 1), Mark ([], 0), Bytes [1, 2, 3], Mark ([], 1)]
     \<and> shorten_asm_once
       [Ref (SizedRef (MarkDeltaRef ([], 0) ([], 1)) 1), Mark ([], 0), Bytes [1, 2, 3], Mark ([], 1)]
     = Inr (False,
       [Ref (SizedRef (MarkDeltaRef ([], 0) ([], 1)) 1), Mark ([], 0), Bytes [1, 2, 3],
        Mark ([], 1)]))"
proof -
  let ?s = "[Ref (SizedRef (MarkDeltaRef ([], 0) ([], 1)) 1), Mark ([], 0), Bytes [1, 2, 3],
             Mark ([], 1)] :: SolidAsm list"
  have h: "shorten_asm_once ?s = Inr (False, ?s)"
    by (simp add: shorten_asm_once_def get_solid_offsets_def lookup_def needed_bytes_small)
  show ?thesis by (rule conjI [OF h shorten_asm_once_fixed_point [OF h]])
qed

section \<open>Length of the emitted bytes\<close>

lemma length_be_bytes [simp]: "length (be_bytes n v) = n"
  by (induction n arbitrary: v) simp_all

lemma to_bytes_length: "to_bytes v len = Inr data \<Longrightarrow> int (length data) = len"
  by (auto simp: to_bytes_def split: if_splits)

lemma emit_step_length:
  "emit_step push_op mo step = Inr bs \<Longrightarrow> int (length bs) = get_size step"
  by (cases step)
     (auto simp: get_bytes_def create_push_def dest: to_bytes_length split: sum.splits)

lemma emit_steps_length:
  "emit_steps push_op mo acc asm = Inr out \<Longrightarrow>
     int (length out) = int (length acc) + sum_list (map get_size asm)"
proof (induction asm arbitrary: acc)
  case Nil
  then show ?case by simp
next
  case (Cons step asm)
  from Cons.prems obtain bs where
    b: "emit_step push_op mo step = Inr bs" and
    r: "emit_steps push_op mo (acc @ bs) asm = Inr out"
    by (auto split: sum.splits)
  from r have "int (length out) = int (length (acc @ bs)) + sum_list (map get_size asm)"
    by (rule Cons.IH)
  with emit_step_length [OF b] show ?case by simp
qed

lemma emit_step_fits: "ref_fits mo step \<Longrightarrow> \<exists>bs. emit_step push_op mo step = Inr bs"
  by (cases step) (auto simp: to_bytes_def split: sum.splits)

lemma emit_steps_fits:
  "list_all (ref_fits mo) asm \<Longrightarrow> \<exists>out. emit_steps push_op mo acc asm = Inr out"
proof (induction asm arbitrary: acc)
  case Nil
  then show ?case by simp
next
  case (Cons step asm)
  then obtain bs where b: "emit_step push_op mo step = Inr bs"
    using emit_step_fits [of mo step push_op] by auto
  from Cons obtain out where "emit_steps push_op mo (acc @ bs) asm = Inr out"
    by fastforce
  with b show ?case by simp
qed

text \<open>
  C4. For a resolved stream in which every reference's value fits in its assigned width,
  the emitter returns a byte sequence whose length is the sum of the concrete sizes of the
  steps: \<open>1 + len(immediate)\<close> for an instruction, the length of raw bytes, 0 for a label
  and \<open>1 + width\<close> for a sized reference.
\<close>

theorem solid_asm_to_bytecode_length:
  assumes "list_all (ref_fits (get_solid_offsets asm)) asm"
  shows "\<exists>out. solid_asm_to_bytecode push_op asm = Inr out
           \<and> int (length out) = sum_list (map get_size asm)"
proof -
  from assms obtain out where o: "emit_steps push_op (get_solid_offsets asm) [] asm = Inr out"
    using emit_steps_fits by blast
  from emit_steps_length [OF o] o show ?thesis by (simp add: solid_asm_to_bytecode_def)
qed

theorem solid_asm_to_bytecode_length_witness:
  "list_all (ref_fits (get_solid_offsets
       [Ref (SizedRef (MarkDeltaRef ([], 0) ([], 1)) 1), Mark ([], 0), Bytes [1, 2, 3], Mark ([], 1)]))
     [Ref (SizedRef (MarkDeltaRef ([], 0) ([], 1)) 1), Mark ([], 0), Bytes [1, 2, 3], Mark ([], 1)]
   \<and> (\<exists>out. solid_asm_to_bytecode (\<lambda>n. of_nat (95 + n))
         [Ref (SizedRef (MarkDeltaRef ([], 0) ([], 1)) 1), Mark ([], 0), Bytes [1, 2, 3],
          Mark ([], 1)] = Inr out
       \<and> int (length out) = sum_list (map get_size
         [Ref (SizedRef (MarkDeltaRef ([], 0) ([], 1)) 1), Mark ([], 0), Bytes [1, 2, 3],
          Mark ([], 1)]))"
proof -
  let ?s = "[Ref (SizedRef (MarkDeltaRef ([], 0) ([], 1)) 1), Mark ([], 0), Bytes [1, 2, 3],
             Mark ([], 1)] :: SolidAsm list"
  have h: "list_all (ref_fits (get_solid_offsets ?s)) ?s"
    by (simp add: get_solid_offsets_def lookup_def)
  show ?thesis by (rule conjI [OF h solid_asm_to_bytecode_length [OF h]])
qed

section \<open>The solidifier's width\<close>

lemma dest_bytes_loop_ge: "d \<le> dest_bytes_loop l r d"
proof (induction l r d rule: dest_bytes_loop.induct)
  case (1 l r d)
  show ?case
  proof (cases "2 ^ (8 * d) - 1 < l + int d * r")
    case True
    with 1 have "d + 1 \<le> dest_bytes_loop l r (d + 1)" by simp
    with True show ?thesis by (subst dest_bytes_loop.simps) simp
  next
    case False
    then show ?thesis by (subst dest_bytes_loop.simps) simp
  qed
qed

lemma dest_bytes_loop_sat:
  "l + int (dest_bytes_loop l r d) * r \<le> 2 ^ (8 * dest_bytes_loop l r d) - 1"
proof (induction l r d rule: dest_bytes_loop.induct)
  case (1 l r d)
  show ?case
  proof (cases "2 ^ (8 * d) - 1 < l + int d * r")
    case True
    with 1 show ?thesis by (subst (1 2) dest_bytes_loop.simps) simp
  next
    case False
    then show ?thesis by (subst (1 2) dest_bytes_loop.simps) simp
  qed
qed

lemma dest_bytes_loop_least:
  "d \<le> k \<Longrightarrow> k < dest_bytes_loop l r d \<Longrightarrow> 2 ^ (8 * k) - 1 < l + int k * r"
proof (induction l r d rule: dest_bytes_loop.induct)
  case (1 l r d)
  show ?case
  proof (cases "2 ^ (8 * d) - 1 < l + int d * r")
    case True
    show ?thesis
    proof (cases "k = d")
      case True
      with \<open>2 ^ (8 * d) - 1 < l + int d * r\<close> show ?thesis by simp
    next
      case False
      with 1(2) have "d + 1 \<le> k" by simp
      moreover from 1(3) True have "k < dest_bytes_loop l r (d + 1)"
        by (subst (asm) dest_bytes_loop.simps) simp
      ultimately show ?thesis using 1(1) True by blast
    qed
  next
    case False
    with 1(3) have "k < d" by (subst (asm) dest_bytes_loop.simps) simp
    with 1(2) show ?thesis by simp
  qed
qed

lemma static_length_code: "static_length asm = sum_list (map min_static_size asm)"
proof -
  have "(case step of
           Op i \<Rightarrow> 1 + int (length (extra_data i))
         | Bytes bs \<Rightarrow> int (length bs)
         | Ref r \<Rightarrow> 1
         | Mark mid \<Rightarrow> 0) = min_static_size step" for step :: Asm
    by (cases step) simp_all
  then show ?thesis by (simp add: static_length_def)
qed

lemma is_ref_iff: "is_ref step = (\<exists>r. step = Ref r)"
  by (cases step) simp_all

lemma reference_count_code: "reference_count asm = int (length (filter is_ref asm))"
proof -
  have "is_ref = (\<lambda>step :: Asm. \<exists>r. step = Ref r)" by (rule ext) (rule is_ref_iff)
  then show ?thesis by (simp add: reference_count_def)
qed

lemma ref_count_sum: "(\<Sum>step\<leftarrow>asm. if is_ref step then 1 else 0) = int (length (filter is_ref asm))"
  by (induction asm) simp_all

lemma get_min_static_size_bytes_loop:
  "get_min_static_size_bytes asm
     = int (dest_bytes_loop (static_length asm) (reference_count asm) 1)"
  by (simp add: get_min_static_size_bytes_def static_length_code reference_count_code
      ref_count_sum)

lemma get_min_static_size_bytes_required:
  "get_min_static_size_bytes asm = int (required_width asm)"
proof -
  let ?w = "dest_bytes_loop (static_length asm) (reference_count asm) 1"
  have "(LEAST w. width_suffices asm w) = ?w"
  proof (rule Least_equality)
    show "width_suffices asm ?w"
      unfolding width_suffices_def
      using dest_bytes_loop_ge [of 1 "static_length asm" "reference_count asm"]
        dest_bytes_loop_sat [of "static_length asm" "reference_count asm" 1]
      by blast
  next
    fix k assume k: "width_suffices asm k"
    show "?w \<le> k"
    proof (rule ccontr)
      assume "\<not> ?w \<le> k"
      then have "k < ?w" by simp
      moreover from k have "1 \<le> k" by (simp add: width_suffices_def)
      ultimately have "2 ^ (8 * k) - 1 < static_length asm + int k * reference_count asm"
        by (rule dest_bytes_loop_least [rotated])
      with k show False by (simp add: width_suffices_def)
    qed
  qed
  then show ?thesis by (simp add: get_min_static_size_bytes_loop required_width_def)
qed

lemma required_width_suffices: "width_suffices asm (required_width asm)"
proof -
  let ?w = "dest_bytes_loop (static_length asm) (reference_count asm) 1"
  have "width_suffices asm ?w"
    unfolding width_suffices_def
    using dest_bytes_loop_ge [of 1 "static_length asm" "reference_count asm"]
      dest_bytes_loop_sat [of "static_length asm" "reference_count asm" 1]
    by blast
  then show ?thesis unfolding required_width_def by (rule LeastI)
qed

text \<open>
  C3. \<open>asm_to_solid\<close> gives every reference step the same width \<open>w\<close>, wrapping it as a
  \<open>SizedRef\<close>, and keeps the other steps as they are and where they are; \<open>w\<close> is the
  smallest positive integer with \<open>L + w * R \<le> 2 ^ (8 * w) - 1\<close>, where \<open>L\<close> is the sum
  of the minimum static sizes of the steps, a reference counting 1 byte, and \<open>R\<close> the
  number of reference steps. When that width is above 6 the function fails instead.
\<close>

theorem asm_to_solid_uniform_width:
  "(required_width asm \<le> 6 \<longrightarrow>
      (\<exists>out. asm_to_solid asm = Inr out \<and> length out = length asm
         \<and> (\<forall>i < length asm.
               case asm ! i of
                 Ref r \<Rightarrow> out ! i = Ref (SizedRef r (int (required_width asm)))
               | Op x \<Rightarrow> out ! i = Op x
               | Mark m \<Rightarrow> out ! i = Mark m
               | Bytes bs \<Rightarrow> out ! i = Bytes bs)))
   \<and> (6 < required_width asm \<longrightarrow> asm_to_solid asm = Inl (AssertionError No_message))
   \<and> width_suffices asm (required_width asm)
   \<and> (\<forall>k. width_suffices asm k \<longrightarrow> required_width asm \<le> k)"
proof (intro conjI impI allI)
  assume "required_width asm \<le> 6"
  then have "asm_to_solid asm
      = Inr (map (map_step (\<lambda>r. SizedRef r (int (required_width asm)))) asm)"
    by (simp add: asm_to_solid_def get_min_static_size_bytes_required)
  moreover have "\<forall>i < length asm.
      case asm ! i of
        Ref r \<Rightarrow> map (map_step (\<lambda>r. SizedRef r (int (required_width asm)))) asm ! i
                   = Ref (SizedRef r (int (required_width asm)))
      | Op x \<Rightarrow> map (map_step (\<lambda>r. SizedRef r (int (required_width asm)))) asm ! i = Op x
      | Mark m \<Rightarrow> map (map_step (\<lambda>r. SizedRef r (int (required_width asm)))) asm ! i = Mark m
      | Bytes bs \<Rightarrow> map (map_step (\<lambda>r. SizedRef r (int (required_width asm)))) asm ! i = Bytes bs"
    by (simp split: step.split)
  ultimately show "\<exists>out. asm_to_solid asm = Inr out \<and> length out = length asm
         \<and> (\<forall>i < length asm.
               case asm ! i of
                 Ref r \<Rightarrow> out ! i = Ref (SizedRef r (int (required_width asm)))
               | Op x \<Rightarrow> out ! i = Op x
               | Mark m \<Rightarrow> out ! i = Mark m
               | Bytes bs \<Rightarrow> out ! i = Bytes bs)"
    by simp
next
  assume "6 < required_width asm"
  then show "asm_to_solid asm = Inl (AssertionError No_message)"
    by (simp add: asm_to_solid_def get_min_static_size_bytes_required)
next
  show "width_suffices asm (required_width asm)" by (rule required_width_suffices)
next
  fix k assume "width_suffices asm k"
  then show "required_width asm \<le> k" unfolding required_width_def by (rule Least_le)
qed

theorem asm_to_solid_uniform_width_witness:
  "static_length [Ref (MarkRef ([], 0)), Op \<lparr>op = 96, extra_data = [1]\<rparr>, Bytes [1, 2, 3],
                  Mark ([], 0)] = 6
   \<and> reference_count [Ref (MarkRef ([], 0)), Op \<lparr>op = 96, extra_data = [1]\<rparr>, Bytes [1, 2, 3],
                  Mark ([], 0)] = 1
   \<and> required_width [Ref (MarkRef ([], 0)), Op \<lparr>op = 96, extra_data = [1]\<rparr>, Bytes [1, 2, 3],
                  Mark ([], 0)] \<le> 6
   \<and> (\<exists>out. asm_to_solid [Ref (MarkRef ([], 0)), Op \<lparr>op = 96, extra_data = [1]\<rparr>,
                              Bytes [1, 2, 3], Mark ([], 0)] = Inr out
        \<and> length out = length [Ref (MarkRef ([], 0)), Op \<lparr>op = 96, extra_data = [1]\<rparr>,
                                Bytes [1, 2, 3], Mark ([], 0) :: Asm]
        \<and> (\<forall>i < length [Ref (MarkRef ([], 0)), Op \<lparr>op = 96, extra_data = [1]\<rparr>,
                           Bytes [1, 2, 3], Mark ([], 0) :: Asm].
              case [Ref (MarkRef ([], 0)), Op \<lparr>op = 96, extra_data = [1]\<rparr>, Bytes [1, 2, 3],
                    Mark ([], 0)] ! i of
                Ref r \<Rightarrow> out ! i
                  = Ref (SizedRef r (int (required_width
                      [Ref (MarkRef ([], 0)), Op \<lparr>op = 96, extra_data = [1]\<rparr>, Bytes [1, 2, 3],
                       Mark ([], 0)])))
              | Op x \<Rightarrow> out ! i = Op x
              | Mark m \<Rightarrow> out ! i = Mark m
              | Bytes bs \<Rightarrow> out ! i = Bytes bs))
   \<and> 6 < required_width [Bytes (replicate (2 ^ 48) 0)]
   \<and> asm_to_solid [Bytes (replicate (2 ^ 48) 0)] = Inl (AssertionError No_message)"
proof -
  let ?a = "[Ref (MarkRef ([], 0)), Op \<lparr>op = 96, extra_data = [1]\<rparr>, Bytes [1, 2, 3],
             Mark ([], 0)] :: Asm list"
  let ?b = "[Bytes (replicate (2 ^ 48) 0)] :: Asm list"
  have l: "static_length ?a = 6" by (simp add: static_length_def)
  have r: "reference_count ?a = 1" by (simp add: reference_count_def)
  have "width_suffices ?a 1" by (simp add: width_suffices_def l r)
  then have "required_width ?a \<le> 1" unfolding required_width_def by (rule Least_le)
  then have h: "required_width ?a \<le> 6" by simp
  have lb: "static_length ?b = 2 ^ 48" by (simp add: static_length_def)
  have rb: "reference_count ?b = 0" by (simp add: reference_count_def)
  have g: "6 < required_width ?b"
  proof (rule ccontr)
    assume "\<not> 6 < required_width ?b"
    then have "8 * required_width ?b \<le> 48" by simp
    then have "(2::int) ^ (8 * required_width ?b) \<le> 2 ^ 48" by (rule power_increasing) simp
    moreover from asm_to_solid_uniform_width [of ?b]
    have "width_suffices ?b (required_width ?b)" by blast
    then have "static_length ?b + int (required_width ?b) * reference_count ?b
        \<le> 2 ^ (8 * required_width ?b) - 1"
      by (simp only: width_suffices_def)
    then have "(2::int) ^ 48 \<le> 2 ^ (8 * required_width ?b) - 1"
      unfolding lb rb by simp
    ultimately show False by simp
  qed
  note t = asm_to_solid_uniform_width
  show ?thesis
    by (intro conjI l r h g mp [OF conjunct1 [OF t [of ?a]] h]
        mp [OF conjunct1 [OF conjunct2 [OF t [of ?b]]] g])
qed

section \<open>The validator\<close>

subsection \<open>The unique dictionary\<close>

lemma build_unique_dict_loop_distinct:
  "distinct (map fst kvs) \<Longrightarrow> \<forall>k \<in> set (map fst kvs). d k = None \<Longrightarrow>
     build_unique_dict_loop d kvs = Inr (d ++ map_of kvs)"
proof (induction kvs arbitrary: d)
  case Nil
  then show ?case by simp
next
  case (Cons kv kvs)
  obtain k v where kv: "kv = (k, v)" by (cases kv)
  from Cons.prems kv have dk: "d k = None" and nk: "k \<notin> set (map fst kvs)"
    and dist: "distinct (map fst kvs)" by simp_all
  from Cons.prems kv nk have "\<forall>k' \<in> set (map fst kvs). (d(k \<mapsto> v)) k' = None" by auto
  with dist have "build_unique_dict_loop (d(k \<mapsto> v)) kvs = Inr (d(k \<mapsto> v) ++ map_of kvs)"
    by (rule Cons.IH)
  from nk have "k \<notin> dom (map_of kvs)" by (simp add: dom_map_of_conv_image_fst)
  then have "d(k \<mapsto> v) ++ map_of kvs = (d ++ map_of kvs)(k \<mapsto> v)"
    by (rule map_add_upd_left)
  also have "\<dots> = d ++ map_of ((k, v) # kvs)"
    by (simp only: map_of.simps fst_conv snd_conv map_add_upd)
  finally have "d(k \<mapsto> v) ++ map_of kvs = d ++ map_of ((k, v) # kvs)" .
  with \<open>build_unique_dict_loop (d(k \<mapsto> v)) kvs = Inr (d(k \<mapsto> v) ++ map_of kvs)\<close> have "build_unique_dict_loop (d(k \<mapsto> v)) kvs = Inr (d ++ map_of ((k, v) # kvs))"
    by (simp only:)
  then show ?case using dk kv by (simp add: set_unique_def del: map_of.simps)
qed

lemma build_unique_dict_loop_duplicate:
  "\<not> (distinct (map fst kvs) \<and> (\<forall>k \<in> set (map fst kvs). d k = None)) \<Longrightarrow>
     \<exists>k. build_unique_dict_loop d kvs = Inl (AssertionError (Duplicate_key k))
        \<and> k \<in> set (map fst kvs) \<and> (d k \<noteq> None \<or> 1 < count_list (map fst kvs) k)"
proof (induction kvs arbitrary: d)
  case Nil
  then show ?case by simp
next
  case (Cons kv kvs)
  obtain k0 v0 where kv: "kv = (k0, v0)" by (cases kv)
  show ?case
  proof (cases "d k0 = None")
    case False
    then show ?thesis using kv by (auto simp: set_unique_def default_unique_error_def)
  next
    case True
    with Cons.prems kv
    have "\<not> (distinct (map fst kvs) \<and> (\<forall>k \<in> set (map fst kvs). (d(k0 \<mapsto> v0)) k = None))"
      by auto
    then obtain k where
      e: "build_unique_dict_loop (d(k0 \<mapsto> v0)) kvs = Inl (AssertionError (Duplicate_key k))"
      and m: "k \<in> set (map fst kvs)"
      and c: "(d(k0 \<mapsto> v0)) k \<noteq> None \<or> 1 < count_list (map fst kvs) k"
      using Cons.IH by blast
    have "d k \<noteq> None \<or> 1 < count_list (map fst (kv # kvs)) k"
    proof (cases "k = k0")
      case True
      from m have "count_list (map fst kvs) k \<noteq> 0" by (simp only: count_list_0_iff not_not)
      then have "0 < count_list (map fst kvs) k" by simp
      with True kv show ?thesis by simp
    next
      case False
      with c kv show ?thesis by auto
    qed
    with e m True kv show ?thesis by (auto simp: set_unique_def)
  qed
qed

subsection \<open>The dictionary of label positions\<close>

lemma map_fst_mark_entries: "map fst (mark_entries (enumerate n asm)) = mark_ids asm"
proof (induction asm arbitrary: n)
  case Nil
  then show ?case by simp
next
  case (Cons step asm)
  then show ?case by (cases step) simp_all
qed

lemma map_of_mark_entries:
  "distinct (mark_ids asm) \<Longrightarrow>
     (map_of (mark_entries (enumerate n asm)) mid = Some i)
       = (n \<le> i \<and> i - n < length asm \<and> asm ! (i - n) = Mark mid)"
proof (induction asm arbitrary: n)
  case Nil
  then show ?case by simp
next
  case (Cons step asm)
  have keys: "fst ` set (mark_entries (enumerate (Suc n) asm)) = set (mark_ids asm)"
    using map_fst_mark_entries [of "Suc n" asm] by (metis set_map)
  have in_set: "mid \<in> set (mark_ids asm)" if "k < length asm" and "asm ! k = Mark mid" for k
    using that
  proof (induction asm arbitrary: k)
    case Nil
    then show ?case by simp
  next
    case (Cons a asm)
    then show ?case by (cases k; cases a) auto
  qed
  show ?case
  proof (cases "step = Mark mid")
    case True
    with Cons.prems have notin: "mid \<notin> set (mark_ids asm)" by simp
    have no: "asm ! k \<noteq> Mark mid" if "k < length asm" for k
      using in_set notin that by blast
    have "(n \<le> i \<and> i - n < Suc (length asm) \<and> (step # asm) ! (i - n) = Mark mid)
        = (i = n)"
      using True no by (cases "i - n") auto
    with True show ?thesis by auto
  next
    case False
    from Cons.prems have d: "distinct (mark_ids asm)" by (cases step) simp_all
    have "map_of (mark_entries (enumerate n (step # asm))) mid
        = map_of (mark_entries (enumerate (Suc n) asm)) mid"
      using False by (cases step) simp_all
    also have "(\<dots> = Some i)
        = (Suc n \<le> i \<and> i - Suc n < length asm \<and> asm ! (i - Suc n) = Mark mid)"
      using d by (rule Cons.IH)
    also have "\<dots> = (n \<le> i \<and> i - n < length (step # asm) \<and> (step # asm) ! (i - n) = Mark mid)"
    proof (cases "n < i")
      case True
      then obtain j where "i = Suc (n + j)" using less_iff_Suc_add [of n i] by blast
      then show ?thesis by simp
    next
      case le: False
      then have "i - n = 0" by simp
      with le False show ?thesis by auto
    qed
    finally show ?thesis .
  qed
qed


lemma build_unique_dict_marks:
  assumes "distinct (mark_ids asm)"
  shows "\<exists>indices. build_unique_dict (mark_entries (enumerate 0 asm)) = Inr indices
           \<and> (\<forall>mid i. (indices mid = Some i) = (i < length asm \<and> asm ! i = Mark mid))"
proof -
  let ?kvs = "mark_entries (enumerate 0 asm)"
  have "distinct (map fst ?kvs)" using assms by (simp only: map_fst_mark_entries)
  then have "build_unique_dict_loop Map.empty ?kvs = Inr (Map.empty ++ map_of ?kvs)"
    by (rule build_unique_dict_loop_distinct) simp
  then have "build_unique_dict ?kvs = Inr (map_of ?kvs)"
    by (simp add: build_unique_dict_def)
  moreover have "(map_of ?kvs mid = Some i) = (i < length asm \<and> asm ! i = Mark mid)" for mid i
    using map_of_mark_entries [OF assms, of 0 mid i] by simp
  ultimately show ?thesis by blast
qed

lemma build_unique_dict_marks_duplicate:
  assumes "\<not> distinct (mark_ids asm)"
  shows "\<exists>k. build_unique_dict (mark_entries (enumerate 0 asm))
             = Inl (AssertionError (Duplicate_key k))
           \<and> 1 < count_list (mark_ids asm) k"
proof -
  let ?kvs = "mark_entries (enumerate 0 asm)"
  have "\<not> (distinct (map fst ?kvs) \<and> (\<forall>k \<in> set (map fst ?kvs). (Map.empty :: MarkId \<rightharpoonup> nat) k = None))"
    using assms by (simp only: map_fst_mark_entries) simp
  from build_unique_dict_loop_duplicate [OF this]
  obtain k where "build_unique_dict_loop Map.empty ?kvs = Inl (AssertionError (Duplicate_key k))"
    and "1 < count_list (map fst ?kvs) k" by auto
  then show ?thesis by (auto simp: build_unique_dict_def map_fst_mark_entries)
qed

subsection \<open>The checking loop\<close>

lemma check_step_ok_iff:
  assumes ind: "\<And>mid i. (indices mid = Some i) = (i < length asm \<and> asm ! i = Mark mid)"
  shows "(check_step indices k step = Inr ()) = ref_ok asm step"
proof -
  have present: "(indices mid \<noteq> None) = (Mark mid \<in> set asm)" for mid
  proof -
    have "(indices mid \<noteq> None) = (\<exists>i. indices mid = Some i)" by auto
    also have "\<dots> = (\<exists>i. i < length asm \<and> asm ! i = Mark mid)" by (simp only: ind)
    also have "\<dots> = (Mark mid \<in> set asm)" by (simp only: in_set_conv_nth)
    finally show ?thesis .
  qed
  show ?thesis
  proof (cases step)
    case (Ref r)
    show ?thesis
    proof (cases r)
      case (MarkRef mid)
      with Ref present [of mid] show ?thesis by auto
    next
      case (MarkDeltaRef start end')
      show ?thesis
      proof (cases "indices start")
        case None
        with present [of start] Ref MarkDeltaRef show ?thesis by auto
      next
        case s: (Some si)
        show ?thesis
        proof (cases "indices end'")
          case None
          with present [of end'] s Ref MarkDeltaRef show ?thesis by auto
        next
          case e: (Some ei)
          from s e have ps: "Mark start \<in> set asm" and pe: "Mark end' \<in> set asm"
            using present [of start] present [of end'] by auto
          have "label_before asm start end' = (si < ei)"
          proof
            assume "label_before asm start end'"
            then obtain i j where ij: "i < j" "j < length asm"
              "asm ! i = Mark start" "asm ! j = Mark end'"
              unfolding label_before_def by blast
            then have "indices start = Some i" "indices end' = Some j" by (simp_all add: ind)
            with s e ij(1) show "si < ei" by simp
          next
            assume "si < ei"
            moreover from s e have "si < length asm" "asm ! si = Mark start"
              "ei < length asm" "asm ! ei = Mark end'" by (simp_all add: ind)
            ultimately show "label_before asm start end'" unfolding label_before_def by blast
          qed
          with s e ps pe Ref MarkDeltaRef show ?thesis by auto
        qed
      qed
    qed
  qed simp_all
qed

lemma check_step_error:
  "check_step indices i step = Inl err \<Longrightarrow>
     (\<exists>mid. err = AssertionError (Invalid_reference i mid) \<and> indices mid = None)
     \<or> err = AssertionError (Negative_delta i)"
  by (induction indices i step rule: check_step.induct)
     (auto split: option.splits if_splits)

lemma check_steps_ok:
  "(check_steps indices xs = Inr ()) = (\<forall>(i, step) \<in> set xs. check_step indices i step = Inr ())"
  by (induction indices xs rule: check_steps.induct) (auto split: sum.splits)

lemma check_steps_error:
  "check_steps indices xs = Inl err \<Longrightarrow> \<exists>(i, step) \<in> set xs. check_step indices i step = Inl err"
  by (induction indices xs rule: check_steps.induct) (auto split: sum.splits)

lemma list_all_enumerate:
  "(\<forall>(i, step) \<in> set (enumerate 0 asm). P step) = list_all P asm"
proof -
  have "snd ` set (enumerate 0 asm) = set (map snd (enumerate 0 asm))" by (simp only: set_map)
  then have "snd ` set (enumerate 0 asm) = set asm" by (simp only: map_snd_enumerate)
  moreover have "(\<forall>(i, step) \<in> set (enumerate 0 asm). P step)
      = (\<forall>step \<in> snd ` set (enumerate 0 asm). P step)" by force
  ultimately show ?thesis by (simp only: list_all_iff)
qed


lemma validate_asm_duplicate_error:
  assumes "\<not> distinct (mark_ids asm)"
  shows "\<exists>k. validate_asm asm = Inl (AssertionError (Duplicate_key k))
           \<and> 1 < count_list (mark_ids asm) k"
  using build_unique_dict_marks_duplicate [OF assms] by (auto simp: validate_asm_def)

lemma validate_asm_check_steps:
  assumes "distinct (mark_ids asm)"
  shows "\<exists>indices. validate_asm asm = check_steps indices (enumerate 0 asm)
           \<and> (\<forall>mid i. (indices mid = Some i) = (i < length asm \<and> asm ! i = Mark mid))"
  using build_unique_dict_marks [OF assms] by (auto simp: validate_asm_def)

lemma validate_asm_distinct:
  assumes "distinct (mark_ids asm)"
  shows "(validate_asm asm = Inr ()) = list_all (ref_ok asm) asm"
proof -
  from validate_asm_check_steps [OF assms] obtain indices where
    v: "validate_asm asm = check_steps indices (enumerate 0 asm)" and
    ind: "\<And>mid i. (indices mid = Some i) = (i < length asm \<and> asm ! i = Mark mid)"
    by blast
  have ok: "(check_step indices k step = Inr ()) = ref_ok asm step" for k step
    using ind by (rule check_step_ok_iff)
  show ?thesis unfolding v check_steps_ok ok by (rule list_all_enumerate)
qed

lemma validate_asm_reference_error:
  assumes "distinct (mark_ids asm)" and "validate_asm asm = Inl e"
  shows "\<exists>i < length asm. \<not> ref_ok asm (asm ! i)
           \<and> ((\<exists>mid. e = AssertionError (Invalid_reference i mid) \<and> Mark mid \<notin> set asm)
              \<or> e = AssertionError (Negative_delta i))"
proof -
  from validate_asm_check_steps [OF assms(1)] obtain indices where
    v: "validate_asm asm = check_steps indices (enumerate 0 asm)" and
    ind: "\<And>mid i. (indices mid = Some i) = (i < length asm \<and> asm ! i = Mark mid)"
    by blast
  have ok: "(check_step indices k step = Inr ()) = ref_ok asm step" for k step
    using ind by (rule check_step_ok_iff)
  from assms(2) have e: "check_steps indices (enumerate 0 asm) = Inl e" unfolding v .
  from check_steps_error [OF e] obtain i step where
    m: "(i, step) \<in> set (enumerate 0 asm)" and c: "check_step indices i step = Inl e"
    by blast
  from m have i: "i < length asm" and st: "step = asm ! i"
    by (simp_all add: in_set_enumerate_eq)
  from c ok [of i step] have nok: "\<not> ref_ok asm (asm ! i)" using st by auto
  have absent: "Mark mid \<notin> set asm" if "indices mid = None" for mid
  proof
    assume "Mark mid \<in> set asm"
    then obtain j where "j < length asm" "asm ! j = Mark mid"
      by (auto simp: in_set_conv_nth)
    then have "indices mid = Some j" by (simp add: ind)
    with that show False by simp
  qed
  from check_step_error [OF c] absent
  have "(\<exists>mid. e = AssertionError (Invalid_reference i mid) \<and> Mark mid \<notin> set asm)
      \<or> e = AssertionError (Negative_delta i)" by blast
  with i nok show ?thesis by blast
qed

lemma validate_asm_well_formed: "(validate_asm asm = Inr ()) = well_formed asm"
proof (cases "distinct (mark_ids asm)")
  case True
  then show ?thesis by (simp add: validate_asm_distinct well_formed_def)
next
  case False
  with validate_asm_duplicate_error [OF False] show ?thesis by (auto simp: well_formed_def)
qed

text \<open>
  C1. \<open>validate_asm\<close> succeeds if and only if the labels of the stream have pairwise
  distinct identities, every reference names only identities of labels of the stream, and
  for every distance reference the end label stands at a strictly greater position than the
  start label. Otherwise it raises the duplicate-identity error, for an identity that
  repeats, or, when the identities are distinct, an invalid-reference error at a step that
  names an absent identity or a misordered pair. No other error is produced.
\<close>

theorem validate_asm_accepts:
  "(validate_asm asm = Inr ()) = well_formed asm
   \<and> (\<not> distinct (mark_ids asm) \<longrightarrow>
        (\<exists>k. validate_asm asm = Inl (AssertionError (Duplicate_key k))
           \<and> 1 < count_list (mark_ids asm) k))
   \<and> (distinct (mark_ids asm) \<and> \<not> list_all (ref_ok asm) asm \<longrightarrow>
        (\<exists>i < length asm. \<not> ref_ok asm (asm ! i)
           \<and> ((\<exists>mid. validate_asm asm = Inl (AssertionError (Invalid_reference i mid))
                  \<and> Mark mid \<notin> set asm)
              \<or> validate_asm asm = Inl (AssertionError (Negative_delta i)))))"
proof (intro conjI impI)
  show "(validate_asm asm = Inr ()) = well_formed asm" by (rule validate_asm_well_formed)
next
  assume "\<not> distinct (mark_ids asm)"
  then show "\<exists>k. validate_asm asm = Inl (AssertionError (Duplicate_key k))
           \<and> 1 < count_list (mark_ids asm) k"
    by (rule validate_asm_duplicate_error)
next
  assume a: "distinct (mark_ids asm) \<and> \<not> list_all (ref_ok asm) asm"
  then have "validate_asm asm \<noteq> Inr ()" by (simp add: validate_asm_distinct)
  then obtain e where e: "validate_asm asm = Inl e" by (cases "validate_asm asm") auto
  from validate_asm_reference_error [OF conjunct1 [OF a] e] e
  show "\<exists>i < length asm. \<not> ref_ok asm (asm ! i)
           \<and> ((\<exists>mid. validate_asm asm = Inl (AssertionError (Invalid_reference i mid))
                  \<and> Mark mid \<notin> set asm)
              \<or> validate_asm asm = Inl (AssertionError (Negative_delta i)))"
    by simp
qed

theorem validate_asm_accepts_witness:
  "well_formed [Ref (MarkDeltaRef ([], 0) ([], 1)), Mark ([], 0), Bytes [1], Mark ([], 1),
                Ref (MarkRef ([], 0))]
   \<and> validate_asm [Ref (MarkDeltaRef ([], 0) ([], 1)), Mark ([], 0), Bytes [1], Mark ([], 1),
                Ref (MarkRef ([], 0))] = Inr ()
   \<and> \<not> distinct (mark_ids [Mark ([], 0), Mark ([], 0) :: Asm])
   \<and> (\<exists>k. validate_asm [Mark ([], 0), Mark ([], 0)] = Inl (AssertionError (Duplicate_key k))
        \<and> 1 < count_list (mark_ids [Mark ([], 0), Mark ([], 0) :: Asm]) k)
   \<and> (distinct (mark_ids [Ref (MarkRef ([], 7))])
        \<and> \<not> list_all (ref_ok [Ref (MarkRef ([], 7))]) [Ref (MarkRef ([], 7))])
   \<and> (\<exists>i < length [Ref (MarkRef ([], 7)) :: Asm].
         \<not> ref_ok [Ref (MarkRef ([], 7))] ([Ref (MarkRef ([], 7))] ! i)
         \<and> ((\<exists>mid. validate_asm [Ref (MarkRef ([], 7))]
                    = Inl (AssertionError (Invalid_reference i mid))
                \<and> Mark mid \<notin> set [Ref (MarkRef ([], 7)) :: Asm])
            \<or> validate_asm [Ref (MarkRef ([], 7))] = Inl (AssertionError (Negative_delta i))))"
proof -
  let ?a = "[Ref (MarkDeltaRef ([], 0) ([], 1)), Mark ([], 0), Bytes [1], Mark ([], 1),
             Ref (MarkRef ([], 0))] :: Asm list"
  let ?b = "[Mark ([], 0), Mark ([], 0)] :: Asm list"
  let ?c = "[Ref (MarkRef ([], 7))] :: Asm list"
  have "?a ! 1 = Mark ([], 0) \<and> ?a ! 3 = Mark ([], 1)" by simp
  then have "label_before ?a ([], 0) ([], 1)"
    unfolding label_before_def by (intro exI [of _ 1] exI [of _ 3]) simp
  then have h1: "well_formed ?a" by (simp add: well_formed_def)
  have h2: "\<not> distinct (mark_ids ?b)" by simp
  have h3: "distinct (mark_ids ?c) \<and> \<not> list_all (ref_ok ?c) ?c" by simp
  note t1 = validate_asm_accepts [of ?a] and t2 = validate_asm_accepts [of ?b]
    and t3 = validate_asm_accepts [of ?c]
  have c1: "validate_asm ?a = Inr ()" by (rule iffD2 [OF conjunct1 [OF t1] h1])
  note c2 = mp [OF conjunct1 [OF conjunct2 [OF t2]] h2]
  note c3 = mp [OF conjunct2 [OF conjunct2 [OF t3]] h3]
  show ?thesis by (intro conjI h1 c1 h2 c2 c3 conjunct1 [OF h3] conjunct2 [OF h3])
qed

section \<open>Offsets of labels\<close>

lemma mark_ids_map_step [simp]: "mark_ids (map (map_step f) asm) = mark_ids asm"
proof (induction asm)
  case Nil
  then show ?case by simp
next
  case (Cons step asm)
  then show ?case by (cases step) simp_all
qed

lemma mark_in_ids: "(Mark mid \<in> set asm) = (mid \<in> set (mark_ids asm))"
proof (induction asm)
  case Nil
  then show ?case by simp
next
  case (Cons step asm)
  then show ?case by (cases step) auto
qed

lemma get_solid_offsets_loop_notin:
  "mid \<notin> set (mark_ids asm) \<Longrightarrow> get_solid_offsets_loop mo off asm mid = mo mid"
proof (induction asm arbitrary: mo off)
  case Nil
  then show ?case by simp
next
  case (Cons step asm)
  then show ?case by (cases step) auto
qed

lemma dom_get_solid_offsets_loop:
  "dom (get_solid_offsets_loop mo off asm) = dom mo \<union> set (mark_ids asm)"
proof (induction asm arbitrary: mo off)
  case Nil
  then show ?case by simp
next
  case (Cons step asm)
  then show ?case by (cases step) auto
qed

lemma dom_get_solid_offsets: "dom (get_solid_offsets asm) = set (mark_ids asm)"
  by (simp add: get_solid_offsets_def dom_get_solid_offsets_loop)

lemma get_solid_offsets_loop_at:
  "distinct (mark_ids asm) \<Longrightarrow> i < length asm \<Longrightarrow> asm ! i = Mark mid \<Longrightarrow>
     get_solid_offsets_loop mo off asm mid = Some (off + sum_list (map get_size (take i asm)))"
proof (induction asm arbitrary: mo off i)
  case Nil
  then show ?case by simp
next
  case (Cons step asm)
  show ?case
  proof (cases i)
    case 0
    with Cons.prems have step: "step = Mark mid" and "mid \<notin> set (mark_ids asm)" by auto
    then show ?thesis using 0 by (simp add: get_solid_offsets_loop_notin)
  next
    case (Suc j)
    with Cons.prems have j: "j < length asm" "asm ! j = Mark mid" by simp_all
    from Cons.prems have d: "distinct (mark_ids asm)" by (cases step) simp_all
    have "get_solid_offsets_loop mo' (off + get_size step) asm mid
        = Some (off + get_size step + sum_list (map get_size (take j asm)))" for mo'
      using d j by (rule Cons.IH)
    then show ?thesis using Suc by simp
  qed
qed

lemma get_solid_offsets_at:
  "distinct (mark_ids asm) \<Longrightarrow> i < length asm \<Longrightarrow> asm ! i = Mark mid \<Longrightarrow>
     get_solid_offsets asm mid = Some (sum_list (map get_size (take i asm)))"
  using get_solid_offsets_loop_at [of asm i mid Map.empty 0] by (simp add: get_solid_offsets_def)

lemma sum_list_take_le:
  assumes "\<forall>x \<in> set xs. 0 \<le> f x" and "i \<le> j"
  shows "sum_list (map f (take i xs)) \<le> (sum_list (map f (take j xs)) :: int)"
proof -
  from assms(2) have "take j xs = take i xs @ take (j - i) (drop i xs)"
    by (metis le_add_diff_inverse take_add)
  moreover have "0 \<le> sum_list (map f (take (j - i) (drop i xs)))"
    using assms(1) by (intro sum_list_nonneg) (auto dest!: in_set_takeD in_set_dropD)
  ultimately show ?thesis by simp
qed

lemma get_size_nonneg:
  "list_all nonneg_width solid \<Longrightarrow> \<forall>step \<in> set solid. 0 \<le> get_size step"
proof
  fix step assume "list_all nonneg_width solid" and "step \<in> set solid"
  then have "nonneg_width step" by (simp add: list_all_iff)
  then show "0 \<le> get_size step" by (cases step) auto
qed

lemma map_step_eq_Mark: "(map_step f x = Mark mid) = (x = Mark mid)"
  by (cases x) simp_all

section \<open>Distances between labels\<close>

lemma delta_value_nonneg:
  assumes d: "distinct (mark_ids solid)"
    and lb: "label_before solid start end'"
    and w: "list_all nonneg_width solid"
  shows "\<exists>v. ref_value (get_solid_offsets solid) (MarkDeltaRef start end') = Inr v \<and> 0 \<le> v"
proof -
  from lb obtain i j where ij: "i < j" "j < length solid"
    "solid ! i = Mark start" "solid ! j = Mark end'"
    unfolding label_before_def by blast
  from ij have i: "i < length solid" by simp
  have s: "get_solid_offsets solid start = Some (sum_list (map get_size (take i solid)))"
    using d i ij(3) by (rule get_solid_offsets_at)
  have e: "get_solid_offsets solid end' = Some (sum_list (map get_size (take j solid)))"
    using d ij(2) ij(4) by (rule get_solid_offsets_at)
  have "sum_list (map get_size (take i solid)) \<le> sum_list (map get_size (take j solid))"
    using get_size_nonneg [OF w] ij(1) by (intro sum_list_take_le) simp_all
  with s e show ?thesis by (simp add: lookup_def)
qed

lemma label_before_map_step:
  "label_before (map (map_step f) solid) start end' = label_before solid start end'"
proof -
  show ?thesis
  proof
    assume "label_before (map (map_step f) solid) start end'"
    then obtain i j where ij: "i < j" "j < length solid"
      "map (map_step f) solid ! i = Mark start" "map (map_step f) solid ! j = Mark end'"
      unfolding label_before_def by auto
    from ij have "solid ! i = Mark start" "solid ! j = Mark end'"
      by (simp_all add: map_step_eq_Mark)
    with ij(1,2) show "label_before solid start end'" unfolding label_before_def by blast
  next
    assume "label_before solid start end'"
    then obtain i j where ij: "i < j" "j < length solid"
      "solid ! i = Mark start" "solid ! j = Mark end'"
      unfolding label_before_def by auto
    from ij have "map (map_step f) solid ! i = Mark start"
      "map (map_step f) solid ! j = Mark end'" by (simp_all add: map_step_eq_Mark)
    moreover from ij(2) have "j < length (map (map_step f) solid)" by simp
    ultimately show "label_before (map (map_step f) solid) start end'"
      unfolding label_before_def using ij(1) by blast
  qed
qed

text \<open>
  C8 (amended). For every stream accepted by \<open>validate_asm\<close> and every assignment of
  non-negative widths to its references, each distance reference resolves, through the
  offset calculator, to a non-negative byte distance \<open>offset(end) - offset(start)\<close>.
\<close>

theorem delta_distance_nonneg:
  assumes "validate_asm asm = Inr ()"
    and "map (map_step ref) solid = asm"
    and "list_all nonneg_width solid"
    and "Ref (MarkDeltaRef start end') \<in> set asm"
  shows "\<exists>v. ref_value (get_solid_offsets solid) (MarkDeltaRef start end') = Inr v \<and> 0 \<le> v"
proof -
  from assms(1) have wf: "well_formed asm" by (simp add: validate_asm_well_formed)
  then have "distinct (mark_ids asm)" by (simp add: well_formed_def)
  then have d: "distinct (mark_ids solid)" using assms(2) by auto
  from wf have "\<forall>step \<in> set asm. ref_ok asm step" by (simp add: well_formed_def list_all_iff)
  with assms(4) have "ref_ok asm (Ref (MarkDeltaRef start end'))" by blast
  then have "label_before asm start end'" by simp
  then have "label_before solid start end'"
    using assms(2) label_before_map_step [of ref solid start end'] by simp
  with d show ?thesis using assms(3) by (rule delta_value_nonneg)
qed

text \<open>
  C8 as stated fails: validation compares the positions of the two labels, not their
  offsets. With nothing between the labels the stream is accepted and the distance is 0.
\<close>

theorem delta_distance_zero_counterexample:
  "validate_asm [Ref (MarkDeltaRef ([], 0) ([], 1)), Mark ([], 0), Mark ([], 1)] = Inr ()
   \<and> map (map_step ref) [Ref (SizedRef (MarkDeltaRef ([], 0) ([], 1)) 1), Mark ([], 0), Mark ([], 1)]
       = [Ref (MarkDeltaRef ([], 0) ([], 1)), Mark ([], 0), Mark ([], 1)]
   \<and> asm_to_solid [Ref (MarkDeltaRef ([], 0) ([], 1)), Mark ([], 0), Mark ([], 1)]
       = Inr [Ref (SizedRef (MarkDeltaRef ([], 0) ([], 1)) 1), Mark ([], 0), Mark ([], 1)]
   \<and> ref_value
         (get_solid_offsets
            [Ref (SizedRef (MarkDeltaRef ([], 0) ([], 1)) 1), Mark ([], 0), Mark ([], 1)])
         (MarkDeltaRef ([], 0) ([], 1)) = Inr 0"
proof -
  have "dest_bytes_loop 1 1 1 = 1" by (subst dest_bytes_loop.simps) simp
  then have "get_min_static_size_bytes [Ref (MarkDeltaRef ([], 0) ([], 1)), Mark ([], 0), Mark ([], 1)] = 1"
    by (simp add: get_min_static_size_bytes_def)
  then show ?thesis
    by (simp add: validate_asm_def build_unique_dict_def set_unique_def asm_to_solid_def
        get_solid_offsets_def lookup_def)
qed

theorem delta_distance_nonneg_witness:
  "validate_asm [Ref (MarkDeltaRef ([], 0) ([], 1)), Mark ([], 0), Bytes [7, 7], Mark ([], 1)] = Inr ()
   \<and> map (map_step ref)
        [Ref (SizedRef (MarkDeltaRef ([], 0) ([], 1)) 1), Mark ([], 0), Bytes [7, 7], Mark ([], 1)]
       = [Ref (MarkDeltaRef ([], 0) ([], 1)), Mark ([], 0), Bytes [7, 7], Mark ([], 1)]
   \<and> list_all nonneg_width
        [Ref (SizedRef (MarkDeltaRef ([], 0) ([], 1)) 1), Mark ([], 0), Bytes [7, 7], Mark ([], 1)]
   \<and> Ref (MarkDeltaRef ([], 0) ([], 1))
        \<in> set [Ref (MarkDeltaRef ([], 0) ([], 1)), Mark ([], 0), Bytes [7, 7], Mark ([], 1)]
   \<and> (\<exists>v. ref_value
         (get_solid_offsets
            [Ref (SizedRef (MarkDeltaRef ([], 0) ([], 1)) 1), Mark ([], 0), Bytes [7, 7],
             Mark ([], 1)])
         (MarkDeltaRef ([], 0) ([], 1)) = Inr v \<and> 0 \<le> v)"
proof -
  let ?a = "[Ref (MarkDeltaRef ([], 0) ([], 1)), Mark ([], 0), Bytes [7, 7], Mark ([], 1)] :: Asm list"
  let ?s = "[Ref (SizedRef (MarkDeltaRef ([], 0) ([], 1)) 1), Mark ([], 0), Bytes [7, 7],
             Mark ([], 1)] :: SolidAsm list"
  have h1: "validate_asm ?a = Inr ()"
    by (simp add: validate_asm_def build_unique_dict_def set_unique_def)
  have h2: "map (map_step ref) ?s = ?a" by simp
  have h3: "list_all nonneg_width ?s" by simp
  have h4: "Ref (MarkDeltaRef ([], 0) ([], 1)) \<in> set ?a" by simp
  show ?thesis
    by (intro conjI h1 h2 h3 h4 delta_distance_nonneg [OF h1 h2 h3 h4])
qed

section \<open>Positions in error messages\<close>

lemma asm_to_solid_error: "asm_to_solid asm = Inl e \<Longrightarrow> e = AssertionError No_message"
  by (auto simp: asm_to_solid_def Let_def split: if_splits)

text \<open>
  C9 (amended). An error of \<open>validate_asm\<close> on a stream with distinct label identities
  names the position of an offending step, one whose reference is absent or misordered.
  The duplicate-identity error names the repeated identity and no position. Whenever
  \<open>asm_to_solid\<close> fails, on any stream, it is the failed width ceiling, which has no
  message at all.
\<close>

theorem reference_error_position:
  "(validate_asm asm = Inl e \<and> distinct (mark_ids asm) \<longrightarrow>
      (\<exists>msg i. e = AssertionError msg \<and> message_position msg = Some i
         \<and> i < length asm \<and> \<not> ref_ok asm (asm ! i)))
   \<and> (validate_asm asm = Inl e \<and> \<not> distinct (mark_ids asm) \<longrightarrow>
      (\<exists>k. e = AssertionError (Duplicate_key k) \<and> 1 < count_list (mark_ids asm) k
         \<and> message_position (Duplicate_key k) = None))
   \<and> (asm_to_solid asm' = Inl e' \<longrightarrow>
        e' = AssertionError No_message \<and> message_position No_message = None)"
proof (intro conjI impI)
  assume a: "validate_asm asm = Inl e \<and> distinct (mark_ids asm)"
  from validate_asm_reference_error [OF conjunct2 [OF a] conjunct1 [OF a]] obtain i where
    i: "i < length asm" "\<not> ref_ok asm (asm ! i)" and
    e: "(\<exists>mid. e = AssertionError (Invalid_reference i mid)) \<or> e = AssertionError (Negative_delta i)"
    by blast
  from e have "\<exists>msg. e = AssertionError msg \<and> message_position msg = Some i" by auto
  with i show "\<exists>msg i. e = AssertionError msg \<and> message_position msg = Some i
              \<and> i < length asm \<and> \<not> ref_ok asm (asm ! i)" by blast
next
  assume a: "validate_asm asm = Inl e \<and> \<not> distinct (mark_ids asm)"
  from validate_asm_duplicate_error [OF conjunct2 [OF a]] conjunct1 [OF a]
  show "\<exists>k. e = AssertionError (Duplicate_key k) \<and> 1 < count_list (mark_ids asm) k
              \<and> message_position (Duplicate_key k) = None" by auto
next
  assume "asm_to_solid asm' = Inl e'"
  then show "e' = AssertionError No_message" by (rule asm_to_solid_error)
next
  show "message_position No_message = None" by simp
qed

theorem reference_error_position_witness:
  "(validate_asm [Ref (MarkRef ([], 7))] = Inl (AssertionError (Invalid_reference 0 ([], 7)))
      \<and> distinct (mark_ids [Ref (MarkRef ([], 7))]))
   \<and> (\<exists>msg i. AssertionError (Invalid_reference 0 ([], 7)) = AssertionError msg
         \<and> message_position msg = Some i \<and> i < length [Ref (MarkRef ([], 7)) :: Asm]
         \<and> \<not> ref_ok [Ref (MarkRef ([], 7))] ([Ref (MarkRef ([], 7))] ! i))
   \<and> (validate_asm [Mark ([], 0), Mark ([], 0)] = Inl (AssertionError (Duplicate_key ([], 0)))
      \<and> \<not> distinct (mark_ids [Mark ([], 0), Mark ([], 0) :: Asm]))
   \<and> (\<exists>k. AssertionError (Duplicate_key ([], 0)) = AssertionError (Duplicate_key k)
         \<and> 1 < count_list (mark_ids [Mark ([], 0), Mark ([], 0) :: Asm]) k
         \<and> message_position (Duplicate_key k) = None)
   \<and> validate_asm [Bytes (replicate (2 ^ 48) 0)] = Inr ()
   \<and> asm_to_solid [Bytes (replicate (2 ^ 48) 0)] = Inl (AssertionError No_message)
   \<and> (AssertionError No_message = AssertionError No_message
      \<and> message_position No_message = None)"
proof -
  let ?a = "[Ref (MarkRef ([], 7))] :: Asm list"
  let ?b = "[Mark ([], 0), Mark ([], 0)] :: Asm list"
  let ?c = "[Bytes (replicate (2 ^ 48) 0)] :: Asm list"
  have h1: "validate_asm ?a = Inl (AssertionError (Invalid_reference 0 ([], 7)))
      \<and> distinct (mark_ids ?a)"
    by (simp add: validate_asm_def build_unique_dict_def)
  have h2: "validate_asm ?b = Inl (AssertionError (Duplicate_key ([], 0)))
      \<and> \<not> distinct (mark_ids ?b)"
    by (simp add: validate_asm_def build_unique_dict_def set_unique_def default_unique_error_def)
  have v: "validate_asm ?c = Inr ()"
    by (simp add: validate_asm_def build_unique_dict_def)
  have "dest_bytes_loop 281474976710656 0 1 = 7" by (simp add: dest_bytes_loop.simps)
  then have "get_min_static_size_bytes ?c = 7" by (simp add: get_min_static_size_bytes_def)
  then have h3: "asm_to_solid ?c = Inl (AssertionError No_message)"
    by (simp add: asm_to_solid_def)
  note t = reference_error_position
  show ?thesis
    by (intro conjI conjunct1 [OF h1] conjunct2 [OF h1] conjunct1 [OF h2] conjunct2 [OF h2] v h3
        mp [OF conjunct1 [OF t] h1] mp [OF conjunct1 [OF conjunct2 [OF t]] h2]
        mp [OF conjunct2 [OF conjunct2 [OF t]] h3])
qed

text \<open>
  C9 as stated fails: the duplicate-identity error is the same value wherever the two
  labels stand, and its message holds no position.
\<close>

theorem duplicate_error_position_counterexample:
  "validate_asm [Mark ([], 0), Mark ([], 0)] = Inl (AssertionError (Duplicate_key ([], 0)))
   \<and> validate_asm [Bytes [], Bytes [], Mark ([], 0), Bytes [], Mark ([], 0)]
       = Inl (AssertionError (Duplicate_key ([], 0)))
   \<and> message_position (Duplicate_key ([], 0)) = None"
  by (simp add: validate_asm_def build_unique_dict_def set_unique_def default_unique_error_def)

section \<open>Lookups in the offset dictionary\<close>

lemma ref_value_resolvable:
  "list_all (\<lambda>mid. mo mid \<noteq> None) (named_marks r) \<Longrightarrow> \<exists>v. ref_value mo r = Inr v"
  by (cases r) (auto simp: lookup_def)

lemma ref_value_error:
  "ref_value mo r = Inl e \<Longrightarrow> \<exists>mid \<in> set (named_marks r). e = KeyError mid \<and> mo mid = None"
  by (cases r) (auto simp: lookup_def split: option.splits sum.splits)

lemma shorten_step_shape:
  "step_resolvable mo step \<Longrightarrow>
     \<exists>x. shorten_step mo step = Inr x \<and> map_step ref (snd x) = map_step ref step"
proof (cases step)
  case (Ref r)
  assume "step_resolvable mo step"
  with Ref obtain v where "ref_value mo (ref r) = Inr v"
    using ref_value_resolvable [of mo "ref r"] by auto
  with Ref show ?thesis
    by (cases "needed_bytes v = offset_size r") (simp_all add: Let_def set_size_def)
qed simp_all

lemma shorten_steps_shape:
  "list_all (step_resolvable mo) asm \<Longrightarrow>
     \<exists>x. shorten_steps mo asm = Inr x
        \<and> map (map_step ref) (snd x) = map (map_step ref) asm"
proof (induction asm)
  case Nil
  then show ?case by simp
next
  case (Cons step asm)
  then obtain x where s: "shorten_step mo step = Inr x"
    "map_step ref (snd x) = map_step ref step"
    using shorten_step_shape [of mo step] by auto
  from Cons obtain y where r: "shorten_steps mo asm = Inr y"
    "map (map_step ref) (snd y) = map (map_step ref) asm" by auto
  from s r show ?case by (cases x; cases y) simp
qed

text \<open>Whether the references resolve depends on the stream without its widths only.\<close>

lemma step_resolvable_shape:
  "map_step ref step' = map_step ref step \<Longrightarrow>
     step_resolvable mo step' = step_resolvable mo step"
  by (cases step; cases step') simp_all

lemma refs_resolvable_shape:
  assumes "map (map_step ref) solid' = map (map_step ref) solid"
  shows "refs_resolvable solid' = refs_resolvable solid"
proof -
  from assms have ids: "mark_ids solid' = mark_ids solid"
    by (metis mark_ids_map_step)
  have dom_eq: "(get_solid_offsets solid' mid \<noteq> None) = (get_solid_offsets solid mid \<noteq> None)"
    for mid
    using dom_get_solid_offsets [of solid'] dom_get_solid_offsets [of solid] ids
    by (metis domIff)
  have fn: "(\<lambda>mid. get_solid_offsets solid' mid \<noteq> None)
      = (\<lambda>mid. get_solid_offsets solid mid \<noteq> None)"
    by (rule ext) (rule dom_eq)
  have res: "step_resolvable (get_solid_offsets solid') step
      = step_resolvable (get_solid_offsets solid) step" for step
    by (cases step) (simp_all only: step_resolvable.simps fn)
  from assms have len: "length solid' = length solid" by (metis length_map)
  have nth: "map_step ref (solid' ! i) = map_step ref (solid ! i)" if "i < length solid" for i
    using assms that len by (metis nth_map)
  have "step_resolvable (get_solid_offsets solid') (solid' ! i)
      = step_resolvable (get_solid_offsets solid) (solid ! i)" if "i < length solid" for i
    using step_resolvable_shape [OF nth [OF that]] res by simp
  then show ?thesis unfolding refs_resolvable_def list_all_length len by auto
qed

lemma shorten_asm_once_resolvable:
  assumes "refs_resolvable solid"
  shows "\<exists>c solid'. shorten_asm_once solid = Inr (c, solid') \<and> refs_resolvable solid'"
proof -
  from assms obtain x where x: "shorten_steps (get_solid_offsets solid) solid = Inr x"
    "map (map_step ref) (snd x) = map (map_step ref) solid"
    using shorten_steps_shape unfolding refs_resolvable_def by blast
  obtain c out where "x = (c, out)" by (cases x)
  with x have o: "shorten_steps (get_solid_offsets solid) solid = Inr (c, out)"
    "map (map_step ref) out = map (map_step ref) solid" by simp_all
  from refs_resolvable_shape [OF o(2)] assms have "refs_resolvable out" by simp
  with o(1) show ?thesis by (simp add: shorten_asm_once_def)
qed

lemma shorten_passes_resolvable:
  "refs_resolvable solid \<Longrightarrow> \<exists>solid'. shorten_passes n solid = Inr solid' \<and> refs_resolvable solid'"
proof (induction n arbitrary: solid)
  case 0
  then show ?case by simp
next
  case (Suc n)
  from shorten_asm_once_resolvable [OF Suc.prems] obtain c s where
    s: "shorten_asm_once solid = Inr (c, s)" "refs_resolvable s" by blast
  from Suc.IH [OF s(2)] s(1) show ?case by simp
qed

lemma emit_steps_error:
  "emit_steps push_op mo acc asm = Inl e \<Longrightarrow> \<exists>step \<in> set asm. emit_step push_op mo step = Inl e"
  by (induction asm arbitrary: acc) (auto split: sum.splits)

lemma to_bytes_no_KeyError: "to_bytes v len \<noteq> Inl (KeyError k)"
  by (simp add: to_bytes_def)

lemma emit_step_no_KeyError:
  "step_resolvable mo step \<Longrightarrow> emit_step push_op mo step \<noteq> Inl (KeyError k)"
proof (cases step)
  case (Ref r)
  assume "step_resolvable mo step"
  with Ref obtain v where "ref_value mo (ref r) = Inr v"
    using ref_value_resolvable [of mo "ref r"] by auto
  with Ref show ?thesis using to_bytes_no_KeyError [of v "offset_size r" k]
    by (auto split: sum.splits)
qed simp_all

lemma solid_asm_to_bytecode_no_KeyError:
  assumes "refs_resolvable solid"
  shows "solid_asm_to_bytecode push_op solid \<noteq> Inl (KeyError k)"
proof
  assume "solid_asm_to_bytecode push_op solid = Inl (KeyError k)"
  then obtain step where "step \<in> set solid"
    "emit_step push_op (get_solid_offsets solid) step = Inl (KeyError k)"
    using emit_steps_error unfolding solid_asm_to_bytecode_def by blast
  moreover from assms \<open>step \<in> set solid\<close>
  have "step_resolvable (get_solid_offsets solid) step"
    by (simp add: refs_resolvable_def list_all_iff)
  ultimately show False using emit_step_no_KeyError by blast
qed

lemma asm_to_solid_shape: "asm_to_solid asm = Inr solid \<Longrightarrow> map (map_step ref) solid = asm"
  by (auto simp: asm_to_solid_def Let_def step.map_comp comp_def step.map_ident split: if_splits)

lemma well_formed_resolvable:
  assumes "well_formed asm" and "map (map_step ref) solid = asm"
  shows "refs_resolvable solid"
proof -
  have "step_resolvable (get_solid_offsets solid) step" if "step \<in> set solid" for step
  proof (cases step)
    case (Ref r)
    with that assms(2) have "Ref (ref r) \<in> set asm" by force
    with assms(1) have ok: "ref_ok asm (Ref (ref r))" by (simp add: well_formed_def list_all_iff)
    have "mid \<in> set (mark_ids solid)" if "mid \<in> set (named_marks (ref r))" for mid
      using ok that assms(2) by (cases "ref r") (auto simp: mark_in_ids)
    then show ?thesis using Ref dom_get_solid_offsets [of solid]
      by (auto simp: list_all_iff)
  qed simp_all
  then show ?thesis by (simp add: refs_resolvable_def list_all_iff)
qed

text \<open>
  C10. For a stream that passes \<open>validate_asm\<close>, in the solidified stream and in every
  stream obtained from it by any number of \<open>shorten_asm_once\<close> passes, every label named
  by a sized reference is a key of the dictionary of \<open>get_solid_offsets\<close>; so all the
  passes return, a further pass returns, and the emitter does not fail with a missing key.
\<close>

theorem lookups_succeed_after_validation:
  assumes "validate_asm asm = Inr ()" and "asm_to_solid asm = Inr solid"
  shows "\<exists>solid'. shorten_passes n solid = Inr solid' \<and> refs_resolvable solid'
           \<and> (\<exists>c s. shorten_asm_once solid' = Inr (c, s))
           \<and> (\<forall>k. solid_asm_to_bytecode push_op solid' \<noteq> Inl (KeyError k))"
proof -
  from assms(1) have "well_formed asm" by (simp add: validate_asm_well_formed)
  then have "refs_resolvable solid"
    using asm_to_solid_shape [OF assms(2)] by (rule well_formed_resolvable)
  from shorten_passes_resolvable [OF this] obtain solid' where
    s: "shorten_passes n solid = Inr solid'" "refs_resolvable solid'" by blast
  from shorten_asm_once_resolvable [OF s(2)] solid_asm_to_bytecode_no_KeyError [OF s(2)] s
  show ?thesis by blast
qed

theorem lookups_succeed_after_validation_witness:
  "validate_asm [Ref (MarkRef ([], 0)), Mark ([], 0)] = Inr ()
   \<and> asm_to_solid [Ref (MarkRef ([], 0)), Mark ([], 0)]
       = Inr [Ref (SizedRef (MarkRef ([], 0)) 1), Mark ([], 0)]
   \<and> (\<exists>solid'. shorten_passes 2 [Ref (SizedRef (MarkRef ([], 0)) 1), Mark ([], 0)] = Inr solid'
         \<and> refs_resolvable solid'
         \<and> (\<exists>c s. shorten_asm_once solid' = Inr (c, s))
         \<and> (\<forall>k. solid_asm_to_bytecode (\<lambda>n. of_nat (95 + n)) solid' \<noteq> Inl (KeyError k)))"
proof -
  let ?a = "[Ref (MarkRef ([], 0)), Mark ([], 0)] :: Asm list"
  have h1: "validate_asm ?a = Inr ()"
    by (simp add: validate_asm_def build_unique_dict_def set_unique_def)
  have "dest_bytes_loop 1 1 1 = 1" by (subst dest_bytes_loop.simps) simp
  then have "get_min_static_size_bytes ?a = 1" by (simp add: get_min_static_size_bytes_def)
  then have h2: "asm_to_solid ?a = Inr [Ref (SizedRef (MarkRef ([], 0)) 1), Mark ([], 0)]"
    by (simp add: asm_to_solid_def)
  show ?thesis
    by (intro conjI h1 h2 lookups_succeed_after_validation [OF h1 h2])
qed

section \<open>The deploy bytecode\<close>

lemma from_bytes_snoc: "from_bytes (bs @ [b]) = from_bytes bs * 256 + unat b"
  by (simp add: from_bytes_def)

lemma from_bytes_be_bytes: "from_bytes (be_bytes n v) = v mod 256 ^ n"
proof (induction n arbitrary: v)
  case 0
  then show ?case by (simp add: from_bytes_def)
next
  case (Suc n)
  have "unat (of_nat (v mod 256) :: byte) = v mod 256" by (simp add: unat_of_nat)
  then have "from_bytes (be_bytes (Suc n) v) = (v div 256 mod 256 ^ n) * 256 + v mod 256"
    by (simp add: from_bytes_snoc Suc.IH)
  also have "\<dots> = v mod (256 * 256 ^ n)" by (simp add: mod_mult2_eq)
  finally show ?case by simp
qed

lemma minimal_deploy_asm:
  "minimal_deploy optable push_op runtime
     = asm_to_bytecode push_op (deploy_asm optable runtime) None"
  by (simp add: minimal_deploy_def deploy_asm_def deploy_solid_def START_SUB_ID_def
      END_SUB_ID_def Let_def)

lemma validate_deploy_asm: "validate_asm (deploy_asm optable runtime) = Inr ()"
  by (simp add: deploy_asm_def deploy_solid_def validate_asm_def build_unique_dict_def
      set_unique_def)

lemma deploy_static_length:
  "static_length (deploy_asm optable runtime) = 7 + int (length runtime)"
  by (simp add: static_length_code deploy_asm_def deploy_solid_def create_plain_op_def)

lemma deploy_reference_count: "reference_count (deploy_asm optable runtime) = 2"
  by (simp add: reference_count_code deploy_asm_def deploy_solid_def)

lemma deploy_to_solid:
  "map (map_step (\<lambda>r. SizedRef r w)) (deploy_asm optable runtime)
     = deploy_solid optable runtime w w"
  by (simp add: deploy_asm_def deploy_solid_def)

lemma deploy_offsets:
  "get_solid_offsets (deploy_solid optable runtime w1 w2) ([], 0) = Some (w1 + w2 + 7)"
  "get_solid_offsets (deploy_solid optable runtime w1 w2) ([], 1)
     = Some (w1 + w2 + 7 + int (length runtime))"
  by (simp_all add: get_solid_offsets_def deploy_solid_def create_plain_op_def)

lemma deploy_shorten_once:
  "shorten_asm_once (deploy_solid optable runtime w1 w2)
     = Inr (needed_bytes (int (length runtime)) \<noteq> w1 \<or> needed_bytes (w1 + w2 + 7) \<noteq> w2,
            deploy_solid optable runtime (needed_bytes (int (length runtime)))
              (needed_bytes (w1 + w2 + 7)))"
proof -
  let ?s = "deploy_solid optable runtime w1 w2"
  have d: "ref_value (get_solid_offsets ?s) (MarkDeltaRef ([], 0) ([], 1))
      = Inr (int (length runtime))"
    by (simp add: deploy_offsets lookup_def)
  have m: "ref_value (get_solid_offsets ?s) (MarkRef ([], 0)) = Inr (w1 + w2 + 7)"
    by (simp add: deploy_offsets lookup_def)
  have "shorten_steps mo ?s
      = Inr (needed_bytes (int (length runtime)) \<noteq> w1 \<or> needed_bytes (w1 + w2 + 7) \<noteq> w2,
            deploy_solid optable runtime (needed_bytes (int (length runtime)))
              (needed_bytes (w1 + w2 + 7)))"
    if "ref_value mo (MarkDeltaRef ([], 0) ([], 1)) = Inr (int (length runtime))"
      and "ref_value mo (MarkRef ([], 0)) = Inr (w1 + w2 + 7)" for mo
    using that unfolding deploy_solid_def
    by (simp add: Let_def set_size_def del: ref_value.simps)
  from this [OF d m] show ?thesis by (simp add: shorten_asm_once_def)
qed


lemma pow_256: "(256::int) ^ n = 2 ^ (8 * n)"
  by (simp add: power_mult)

lemma shorten_asm_loop_two_passes:
  assumes "shorten_asm_once s0 = Inr (c, s1)" and "shorten_asm_once s1 = Inr (False, s1)"
    and "c \<or> s1 = s0" and "budget < 0"
  shows "shorten_asm_loop True budget s0 = Some (Inr s1)"
proof (cases c)
  case True
  have "shorten_asm_loop True budget s0 = shorten_asm_loop True (budget - 1) s1"
    using assms(1,4) True by (subst shorten_asm_loop.simps) simp
  also have "\<dots> = shorten_asm_loop False (budget - 1 - 1) s1"
    using assms(2,4) by (subst shorten_asm_loop.simps) simp
  also have "\<dots> = Some (Inr s1)" by (subst shorten_asm_loop.simps) simp
  finally show ?thesis .
next
  case False
  have "shorten_asm_loop True budget s0 = shorten_asm_loop False (budget - 1) s1"
    using assms(1,4) False by (subst shorten_asm_loop.simps) simp
  also have "\<dots> = Some (Inr s1)" by (subst shorten_asm_loop.simps) simp
  finally show ?thesis .
qed

lemma deploy_shorten_asm:
  assumes "1 \<le> w0" and "w0 \<le> 6" and "int (length runtime) < 2 ^ 48"
  shows "shorten_asm (deploy_solid optable runtime w0 w0) (Some (- 1))
     = Some (Inr (deploy_solid optable runtime (needed_bytes (int (length runtime))) 1))"
proof -
  let ?w = "needed_bytes (int (length runtime))"
  have w: "1 \<le> ?w" "?w \<le> 6"
    using needed_bytes_ge1 [of "int (length runtime)"]
      needed_bytes_le [of "int (length runtime)" 6] assms(3) by simp_all
  have n0: "needed_bytes (w0 + w0 + 7) = 1" using assms(1,2) by (intro needed_bytes_small) simp_all
  have n1: "needed_bytes (?w + 1 + 7) = 1" using w by (intro needed_bytes_small) simp_all
  have p1: "shorten_asm_once (deploy_solid optable runtime w0 w0)
      = Inr (?w \<noteq> w0 \<or> 1 \<noteq> w0, deploy_solid optable runtime ?w 1)"
    using deploy_shorten_once [of optable runtime w0 w0] by (simp only: n0)
  have p2: "shorten_asm_once (deploy_solid optable runtime ?w 1)
      = Inr (False, deploy_solid optable runtime ?w 1)"
    using deploy_shorten_once [of optable runtime ?w 1] by (simp only: n1) simp
  have "shorten_asm_loop True (- 1) (deploy_solid optable runtime w0 w0)
      = Some (Inr (deploy_solid optable runtime ?w 1))"
    using p1 p2 by (rule shorten_asm_loop_two_passes) auto
  then show ?thesis by (simp add: shorten_asm_def)
qed

lemma deploy_emit:
  assumes "int (length runtime) < 2 ^ 48"
  shows "solid_asm_to_bytecode push_op
           (deploy_solid optable runtime (needed_bytes (int (length runtime))) 1)
     = Inr (push_op (nat (needed_bytes (int (length runtime))))
            # be_bytes (nat (needed_bytes (int (length runtime)))) (length runtime)
            @ [optable ''dup1'', push_op 1,
               of_nat (nat (needed_bytes (int (length runtime))) + 8),
               optable ''push0'', optable ''codecopy'', optable ''push0'', optable ''return'']
            @ runtime)"
proof -
  let ?w = "needed_bytes (int (length runtime))"
  let ?s = "deploy_solid optable runtime ?w 1"
  have w: "1 \<le> ?w" "?w \<le> 6"
    using needed_bytes_ge1 [of "int (length runtime)"]
      needed_bytes_le [of "int (length runtime)" 6] assms by simp_all
  have "nat (8 * ?w) = 8 * nat ?w" by (simp add: nat_mult_distrib)
  then have fit: "int (length runtime) < 256 ^ nat ?w"
    using needed_bytes_upper [of "int (length runtime)"] by (simp add: pow_256)
  have d: "ref_value (get_solid_offsets ?s) (MarkDeltaRef ([], 0) ([], 1))
      = Inr (int (length runtime))"
    by (simp add: deploy_offsets lookup_def)
  have m: "ref_value (get_solid_offsets ?s) (MarkRef ([], 0)) = Inr (?w + 8)"
    by (simp add: deploy_offsets lookup_def)
  have tb1: "to_bytes (int (length runtime)) ?w = Inr (be_bytes (nat ?w) (length runtime))"
    using fit w by (simp add: to_bytes_def)
  have "nat (?w + 8) = nat ?w + 8" using w by simp
  then have tb2: "to_bytes (?w + 8) 1 = Inr [of_nat (nat ?w + 8)]"
    using w by (simp add: to_bytes_def)
  have "emit_steps push_op mo [] ?s
      = Inr (push_op (nat ?w) # be_bytes (nat ?w) (length runtime)
            @ [optable ''dup1'', push_op 1, of_nat (nat ?w + 8),
               optable ''push0'', optable ''codecopy'', optable ''push0'', optable ''return'']
            @ runtime)"
    if "ref_value mo (MarkDeltaRef ([], 0) ([], 1)) = Inr (int (length runtime))"
      and "ref_value mo (MarkRef ([], 0)) = Inr (?w + 8)" for mo
    using that tb1 tb2 unfolding deploy_solid_def
    by (simp add: get_bytes_def create_push_def create_plain_op_def del: ref_value.simps)
  from this [OF d m] show ?thesis by (simp add: solid_asm_to_bytecode_def)
qed

lemma deploy_required_width:
  assumes "length runtime < 2 ^ 48 - 19"
  shows "1 \<le> required_width (deploy_asm optable runtime)"
    and "required_width (deploy_asm optable runtime) \<le> 6"
proof -
  let ?a = "deploy_asm optable runtime"
  from required_width_suffices [of ?a] show "1 \<le> required_width ?a"
    by (simp add: width_suffices_def)
  from assms have "int (length runtime) < 2 ^ 48 - 19" by simp
  then have "width_suffices ?a 6"
    by (simp add: width_suffices_def deploy_static_length deploy_reference_count)
  then show "required_width ?a \<le> 6" unfolding required_width_def by (rule Least_le)
qed

lemma deploy_asm_to_solid:
  assumes "length runtime < 2 ^ 48 - 19"
  shows "asm_to_solid (deploy_asm optable runtime)
     = Inr (deploy_solid optable runtime (int (required_width (deploy_asm optable runtime)))
             (int (required_width (deploy_asm optable runtime))))"
  using deploy_required_width(2) [OF assms, of optable]
  by (simp add: asm_to_solid_def Let_def get_min_static_size_bytes_required deploy_to_solid)

lemma minimal_deploy_small:
  assumes "length runtime < 2 ^ 48 - 19"
  shows "minimal_deploy optable push_op runtime
     = Some (Inr (push_op (nat (needed_bytes (int (length runtime))))
            # be_bytes (nat (needed_bytes (int (length runtime)))) (length runtime)
            @ [optable ''dup1'', push_op 1,
               of_nat (nat (needed_bytes (int (length runtime))) + 8),
               optable ''push0'', optable ''codecopy'', optable ''push0'', optable ''return'']
            @ runtime))
   \<and> from_bytes (be_bytes (nat (needed_bytes (int (length runtime)))) (length runtime))
       = length runtime"
proof -
  let ?a = "deploy_asm optable runtime"
  let ?u = "int (required_width ?a)"
  let ?w = "needed_bytes (int (length runtime))"
  from assms have k: "int (length runtime) < 2 ^ 48" by simp
  have w0: "1 \<le> ?u" "?u \<le> 6" using deploy_required_width [OF assms, of optable] by simp_all
  have sh: "shorten_asm (deploy_solid optable runtime ?u ?u) (Some (- 1))
      = Some (Inr (deploy_solid optable runtime ?w 1))"
    using w0 k by (rule deploy_shorten_asm)
  have "minimal_deploy optable push_op runtime
      = Some (solid_asm_to_bytecode push_op (deploy_solid optable runtime ?w 1))"
    by (simp add: minimal_deploy_asm asm_to_bytecode_def validate_deploy_asm
        deploy_asm_to_solid [OF assms] sh)
  then have out: "minimal_deploy optable push_op runtime
     = Some (Inr (push_op (nat ?w) # be_bytes (nat ?w) (length runtime)
            @ [optable ''dup1'', push_op 1, of_nat (nat ?w + 8),
               optable ''push0'', optable ''codecopy'', optable ''push0'', optable ''return'']
            @ runtime))"
    by (simp only: deploy_emit [OF k])
  have "nat (8 * ?w) = 8 * nat ?w" by (simp add: nat_mult_distrib)
  then have "int (length runtime) < 256 ^ nat ?w"
    using needed_bytes_upper [of "int (length runtime)"] by (simp add: pow_256)
  then have "length runtime < 256 ^ nat ?w"
    using of_nat_less_iff [of "length runtime" "256 ^ nat ?w", where 'a = int] by simp
  then have "from_bytes (be_bytes (nat ?w) (length runtime)) = length runtime"
    by (simp add: from_bytes_be_bytes)
  with out show ?thesis by (rule conjI)
qed

lemma deploy_required_width_large:
  assumes "2 ^ 48 - 19 \<le> length runtime"
  shows "6 < required_width (deploy_asm optable runtime)"
proof (rule ccontr)
  let ?a = "deploy_asm optable runtime"
  let ?r = "required_width ?a"
  assume "\<not> 6 < ?r"
  then have r: "?r \<le> 6" by simp
  from assms have k: "2 ^ 48 - 19 \<le> int (length runtime)"
    using of_nat_le_iff [of "2 ^ 48 - 19" "length runtime", where 'a = int] by simp
  from required_width_suffices [of ?a]
  have s: "7 + int (length runtime) + int ?r * 2 \<le> 2 ^ (8 * ?r) - 1"
    by (simp add: width_suffices_def deploy_static_length deploy_reference_count)
  show False
  proof (cases "?r = 6")
    case True
    with s k show False by simp
  next
    case False
    with r have "8 * ?r \<le> 40" by simp
    then have "(2::int) ^ (8 * ?r) \<le> 2 ^ 40" by (rule power_increasing) simp
    with s k show False by simp
  qed
qed

lemma deploy_asm_to_solid_large:
  assumes "2 ^ 48 - 19 \<le> length runtime"
  shows "asm_to_solid (deploy_asm optable runtime) = Inl (AssertionError No_message)"
  using deploy_required_width_large [OF assms, of optable]
  by (simp add: asm_to_solid_def Let_def get_min_static_size_bytes_required)

lemma minimal_deploy_large:
  assumes "2 ^ 48 - 19 \<le> length runtime"
  shows "minimal_deploy optable push_op runtime = Some (Inl (AssertionError No_message))"
  by (simp add: minimal_deploy_asm asm_to_bytecode_def validate_deploy_asm
      deploy_asm_to_solid_large [OF assms])

text \<open>
  C7 (amended). For every runtime payload of byte length \<open>K < 2^48 - 19\<close>,
  \<open>minimal_deploy\<close> returns bytecode that ends with the payload bytes: the push for the
  distance reference, the five plain instructions with the push for the start label among
  them, then the payload. The immediate of the first push, read as a big-endian unsigned
  integer, is \<open>K\<close>. For every longer payload the width ceiling of the solidifier fails
  the call.
\<close>

theorem minimal_deploy_bytecode:
  "(length runtime < 2 ^ 48 - 19 \<longrightarrow>
      minimal_deploy optable push_op runtime
        = Some (Inr (push_op (nat (needed_bytes (int (length runtime))))
            # be_bytes (nat (needed_bytes (int (length runtime)))) (length runtime)
            @ [optable ''dup1'', push_op 1,
               of_nat (nat (needed_bytes (int (length runtime))) + 8),
               optable ''push0'', optable ''codecopy'', optable ''push0'', optable ''return'']
            @ runtime))
      \<and> from_bytes (be_bytes (nat (needed_bytes (int (length runtime)))) (length runtime))
          = length runtime)
   \<and> (2 ^ 48 - 19 \<le> length runtime \<longrightarrow>
        minimal_deploy optable push_op runtime = Some (Inl (AssertionError No_message)))"
proof (intro conjI impI)
  assume k: "length runtime < 2 ^ 48 - 19"
  from minimal_deploy_small [OF k]
  show "minimal_deploy optable push_op runtime
        = Some (Inr (push_op (nat (needed_bytes (int (length runtime))))
            # be_bytes (nat (needed_bytes (int (length runtime)))) (length runtime)
            @ [optable ''dup1'', push_op 1,
               of_nat (nat (needed_bytes (int (length runtime))) + 8),
               optable ''push0'', optable ''codecopy'', optable ''push0'', optable ''return'']
            @ runtime))"
    by (rule conjunct1)
  from minimal_deploy_small [OF k, of optable push_op]
  show "from_bytes (be_bytes (nat (needed_bytes (int (length runtime)))) (length runtime))
          = length runtime"
    by (rule conjunct2)
next
  assume "2 ^ 48 - 19 \<le> length runtime"
  then show "minimal_deploy optable push_op runtime = Some (Inl (AssertionError No_message))"
    by (rule minimal_deploy_large)
qed

text \<open>
  C7 as stated fails: for a payload of \<open>2^48 - 19\<close> bytes the solidifier needs 7 bytes
  of width, and \<^verbatim>\<open>assert size_bytes <= 6\<close> ends the assembly.
\<close>

theorem minimal_deploy_ceiling_counterexample:
  "minimal_deploy (\<lambda>name. 0) (\<lambda>n. of_nat (95 + n)) (replicate (2 ^ 48 - 19) 0)
     = Some (Inl (AssertionError No_message))"
proof -
  let ?rt = "replicate (2 ^ 48 - 19) 0 :: byte list"
  let ?a = "deploy_asm (\<lambda>name. 0) ?rt"
  have "dest_bytes_loop 281474976710644 2 1 = 7"
    by (simp add: dest_bytes_loop.simps)
  then have "get_min_static_size_bytes ?a = 7"
    by (simp add: get_min_static_size_bytes_loop deploy_static_length deploy_reference_count)
  then have "asm_to_solid ?a = Inl (AssertionError No_message)"
    by (simp add: asm_to_solid_def)
  then show ?thesis
    by (simp add: minimal_deploy_asm asm_to_bytecode_def validate_deploy_asm)
qed

theorem minimal_deploy_bytecode_witness:
  "length [0xAA, 0xBB, 0xCC :: byte] < 2 ^ 48 - 19
   \<and> (minimal_deploy (\<lambda>name. 0) (\<lambda>n. of_nat (95 + n)) [0xAA, 0xBB, 0xCC]
       = Some (Inr ((\<lambda>n. of_nat (95 + n)) (nat (needed_bytes (int (length [0xAA, 0xBB, 0xCC :: byte]))))
            # be_bytes (nat (needed_bytes (int (length [0xAA, 0xBB, 0xCC :: byte]))))
                (length [0xAA, 0xBB, 0xCC :: byte])
            @ [(\<lambda>name. 0) ''dup1'', (\<lambda>n. of_nat (95 + n)) 1,
               of_nat (nat (needed_bytes (int (length [0xAA, 0xBB, 0xCC :: byte]))) + 8),
               (\<lambda>name. 0) ''push0'', (\<lambda>name. 0) ''codecopy'', (\<lambda>name. 0) ''push0'',
               (\<lambda>name. 0) ''return'']
            @ [0xAA, 0xBB, 0xCC]))
     \<and> from_bytes (be_bytes (nat (needed_bytes (int (length [0xAA, 0xBB, 0xCC :: byte]))))
           (length [0xAA, 0xBB, 0xCC :: byte]))
         = length [0xAA, 0xBB, 0xCC :: byte])
   \<and> 2 ^ 48 - 19 \<le> length (replicate (2 ^ 48) (1 :: byte))
   \<and> minimal_deploy (\<lambda>name. 7) (\<lambda>n. of_nat (95 + n)) (replicate (2 ^ 48) 1)
       = Some (Inl (AssertionError No_message))"
proof -
  have h: "length [0xAA, 0xBB, 0xCC :: byte] < 2 ^ 48 - 19" by simp
  have g: "2 ^ 48 - 19 \<le> length (replicate (2 ^ 48) (1 :: byte))" by simp
  note t = minimal_deploy_bytecode
  show ?thesis
    by (intro conjI h g mp [OF conjunct1 [OF t] h] mp [OF conjunct2 [OF t] g])
qed

section \<open>The iteration budget\<close>

lemma shorten_asm_once_unchanged: "shorten_asm_once s = Inr (False, s') \<Longrightarrow> s' = s"
  unfolding shorten_asm_once_def by (rule shorten_steps_unchanged)

lemma shorten_asm_loop_negative_aux:
  assumes "shorten_asm_loop c0 b0 s0 = Some y0"
  shows "b0 < 0 \<longrightarrow> (\<forall>b'. b' < 0 \<longrightarrow> shorten_asm_loop c0 b' s0 = Some y0)"
proof (rule shorten_asm_loop.raw_induct
    [where P = "\<lambda>c b s y. b < 0 \<longrightarrow> (\<forall>b'. b' < 0 \<longrightarrow> shorten_asm_loop c b' s = Some y)",
     OF _ assms])
  fix loop :: "bool \<Rightarrow> int \<Rightarrow> SolidAsm list \<Rightarrow> (error + SolidAsm list) option"
    and c b s y
  assume 1: "\<And>c b s y. loop c b s = Some y \<Longrightarrow>
        b < 0 \<longrightarrow> (\<forall>b'. b' < 0 \<longrightarrow> shorten_asm_loop c b' s = Some y)"
    "(if c \<and> b \<noteq> 0
      then case shorten_asm_once s of
             Inl e \<Rightarrow> Some (Inl e)
           | Inr (changed_any', asm') \<Rightarrow> loop changed_any' (b - 1) asm'
      else Some (Inr s)) = Some y"
  show "b < 0 \<longrightarrow> (\<forall>b'. b' < 0 \<longrightarrow> shorten_asm_loop c b' s = Some y)"
  proof (intro impI allI)
    fix b' :: int
    assume b: "b < 0" and b': "b' < 0"
    show "shorten_asm_loop c b' s = Some y"
    proof (cases c)
      case False
      with 1(2) have "y = Inr s" by simp
      with False show ?thesis by (subst shorten_asm_loop.simps) simp
    next
      case True
      show ?thesis
      proof (cases "shorten_asm_once s")
        case (Inl e)
        with 1(2) True b have "y = Inl e" by simp
        with Inl True b' show ?thesis by (subst shorten_asm_loop.simps) simp
      next
        case (Inr p)
        obtain c1 s1 where p: "p = (c1, s1)" by (cases p)
        with 1(2) True b Inr have "loop c1 (b - 1) s1 = Some y" by simp
        from 1(1) [OF this] b b' have "shorten_asm_loop c1 (b' - 1) s1 = Some y" by simp
        with Inr p True b' show ?thesis by (subst shorten_asm_loop.simps) simp
      qed
    qed
  qed
qed

lemma shorten_asm_loop_negative:
  assumes "b < 0" and "b' < 0"
  shows "shorten_asm_loop c b s = shorten_asm_loop c b' s"
proof (cases "shorten_asm_loop c b s")
  case (Some y)
  with shorten_asm_loop_negative_aux [OF Some] assms show ?thesis by simp
next
  case None
  show ?thesis
  proof (cases "shorten_asm_loop c b' s")
    case (Some y)
    with shorten_asm_loop_negative_aux [OF Some] assms None show ?thesis by simp
  next
    case n: None
    with None show ?thesis by simp
  qed
qed

lemma shorten_asm_loop_fixed_point_aux:
  assumes "shorten_asm_loop c0 b0 s0 = Some y0"
  shows "b0 < 0 \<longrightarrow> (\<forall>s'. y0 = Inr s' \<longrightarrow>
        (c0 \<longrightarrow> shorten_asm_once s' = Inr (False, s')) \<and> (\<not> c0 \<longrightarrow> s' = s0))"
proof (rule shorten_asm_loop.raw_induct
    [where P = "\<lambda>c b s y. b < 0 \<longrightarrow> (\<forall>s'. y = Inr s' \<longrightarrow>
        (c \<longrightarrow> shorten_asm_once s' = Inr (False, s')) \<and> (\<not> c \<longrightarrow> s' = s))",
     OF _ assms])
  fix loop :: "bool \<Rightarrow> int \<Rightarrow> SolidAsm list \<Rightarrow> (error + SolidAsm list) option"
    and c b s y
  assume 1: "\<And>c b s y. loop c b s = Some y \<Longrightarrow>
        b < 0 \<longrightarrow> (\<forall>s'. y = Inr s' \<longrightarrow>
          (c \<longrightarrow> shorten_asm_once s' = Inr (False, s')) \<and> (\<not> c \<longrightarrow> s' = s))"
    "(if c \<and> b \<noteq> 0
      then case shorten_asm_once s of
             Inl e \<Rightarrow> Some (Inl e)
           | Inr (changed_any', asm') \<Rightarrow> loop changed_any' (b - 1) asm'
      else Some (Inr s)) = Some y"
  show "b < 0 \<longrightarrow> (\<forall>s'. y = Inr s' \<longrightarrow>
        (c \<longrightarrow> shorten_asm_once s' = Inr (False, s')) \<and> (\<not> c \<longrightarrow> s' = s))"
  proof (intro impI allI)
    fix s' assume b: "b < 0" and y: "y = Inr s'"
    show "(c \<longrightarrow> shorten_asm_once s' = Inr (False, s')) \<and> (\<not> c \<longrightarrow> s' = s)"
    proof (cases c)
      case False
      with 1(2) y show ?thesis by simp
    next
      case True
      show ?thesis
      proof (cases "shorten_asm_once s")
        case (Inl e)
        with 1(2) True b y show ?thesis by simp
      next
        case (Inr p)
        obtain c1 s1 where p: "p = (c1, s1)" by (cases p)
        with 1(2) True b Inr have "loop c1 (b - 1) s1 = Some y" by simp
        from 1(1) [OF this] b y
        have ih: "(c1 \<longrightarrow> shorten_asm_once s' = Inr (False, s')) \<and> (\<not> c1 \<longrightarrow> s' = s1)"
          by simp
        show ?thesis
        proof (cases c1)
          case True
          with ih \<open>c\<close> show ?thesis by simp
        next
          case False
          with ih have "s' = s1" by simp
          moreover from Inr p False have "shorten_asm_once s = Inr (False, s1)" by simp
          moreover from this have "s1 = s" by (rule shorten_asm_once_unchanged)
          ultimately show ?thesis using \<open>c\<close> by simp
        qed
      qed
    qed
  qed
qed

lemma shorten_asm_loop_budget:
  "\<exists>n \<le> m. shorten_asm_loop True (int m) s = Some (shorten_passes n s)"
proof (induction m arbitrary: s)
  case 0
  have "shorten_asm_loop True (int 0) s = Some (shorten_passes 0 s)"
    by (subst shorten_asm_loop.simps) simp
  then show ?case by blast
next
  case (Suc m)
  show ?case
  proof (cases "shorten_asm_once s")
    case (Inl e)
    then have "shorten_asm_loop True (int (Suc m)) s = Some (shorten_passes 1 s)"
      by (subst shorten_asm_loop.simps) simp
    then show ?thesis by (intro exI [of _ 1]) simp
  next
    case (Inr p)
    obtain c1 s1 where p: "p = (c1, s1)" by (cases p)
    have step: "shorten_asm_loop True (int (Suc m)) s = shorten_asm_loop c1 (int m) s1"
      using Inr p by (subst shorten_asm_loop.simps) simp
    show ?thesis
    proof (cases c1)
      case True
      from Suc.IH [of s1] obtain n where
        n: "n \<le> m" "shorten_asm_loop True (int m) s1 = Some (shorten_passes n s1)" by blast
      from n(2) step True Inr p
      have "shorten_asm_loop True (int (Suc m)) s = Some (shorten_passes (Suc n) s)" by simp
      with n(1) show ?thesis by (intro exI [of _ "Suc n"]) simp
    next
      case False
      have "shorten_asm_loop False (int m) s1 = Some (Inr s1)"
        by (subst shorten_asm_loop.simps) simp
      with step False Inr p
      have "shorten_asm_loop True (int (Suc m)) s = Some (shorten_passes 1 s)" by simp
      then show ?thesis by (intro exI [of _ 1]) simp
    qed
  qed
qed

text \<open>
  C6 (amended). When the caller of \<open>asm_to_bytecode\<close> does not override the budget, the
  shrinker runs with the budget -1. A negative budget never reaches 0: all negative budgets
  give the same result, and the loop returns only a stream on which a further pass reports
  no change. The budget of 100 passes is the default of \<open>shorten_asm\<close> called on its own;
  a budget \<open>m \<ge> 0\<close> means at most \<open>m\<close> passes.
\<close>

theorem default_budget_unbounded:
  "asm_to_bytecode push_op asm None = asm_to_bytecode push_op asm (Some (- 1))
   \<and> shorten_asm solid None = shorten_asm solid (Some 100)
   \<and> (b < 0 \<and> b' < 0 \<longrightarrow> shorten_asm solid (Some b) = shorten_asm solid (Some b'))
   \<and> (b < 0 \<and> shorten_asm solid (Some b) = Some (Inr solid') \<longrightarrow>
        shorten_asm_once solid' = Inr (False, solid'))
   \<and> (\<exists>n \<le> m. shorten_asm solid (Some (int m)) = Some (shorten_passes n solid))"
proof (intro conjI impI)
  show "asm_to_bytecode push_op asm None = asm_to_bytecode push_op asm (Some (- 1))"
    by (simp add: asm_to_bytecode_def)
  show "shorten_asm solid None = shorten_asm solid (Some 100)"
    by (simp add: shorten_asm_def)
  show "\<exists>n \<le> m. shorten_asm solid (Some (int m)) = Some (shorten_passes n solid)"
    using shorten_asm_loop_budget [of m solid] by (simp add: shorten_asm_def)
next
  assume "b < 0 \<and> b' < 0"
  then show "shorten_asm solid (Some b) = shorten_asm solid (Some b')"
    using shorten_asm_loop_negative [of b b' True solid] by (simp add: shorten_asm_def)
next
  assume a: "b < 0 \<and> shorten_asm solid (Some b) = Some (Inr solid')"
  then have "shorten_asm_loop True b solid = Some (Inr solid')" by (simp add: shorten_asm_def)
  from shorten_asm_loop_fixed_point_aux [OF this] a
  show "shorten_asm_once solid' = Inr (False, solid')" by simp
qed

theorem default_budget_unbounded_witness:
  "((- 1 :: int) < 0 \<and> (- 2 :: int) < 0)
   \<and> shorten_asm (deploy_solid (\<lambda>name. 0) [1, 2, 3] 1 1) (Some (- 1))
       = Some (Inr (deploy_solid (\<lambda>name. 0) [1, 2, 3]
                     (needed_bytes (int (length [1, 2, 3 :: byte]))) 1))
   \<and> shorten_asm (deploy_solid (\<lambda>name. 0) [1, 2, 3] 1 1) (Some (- 1))
       = shorten_asm (deploy_solid (\<lambda>name. 0) [1, 2, 3] 1 1) (Some (- 2))
   \<and> shorten_asm_once (deploy_solid (\<lambda>name. 0) [1, 2, 3]
                          (needed_bytes (int (length [1, 2, 3 :: byte]))) 1)
       = Inr (False, deploy_solid (\<lambda>name. 0) [1, 2, 3]
                       (needed_bytes (int (length [1, 2, 3 :: byte]))) 1)"
proof -
  let ?d = "deploy_solid (\<lambda>name. 0) [1, 2, 3] 1 1"
  let ?e = "deploy_solid (\<lambda>name. 0) [1, 2, 3] (needed_bytes (int (length [1, 2, 3 :: byte]))) 1"
  note t = default_budget_unbounded [where solid = ?d and b = "- 1" and b' = "- 2"
      and solid' = ?e and push_op = "\<lambda>n. 0" and asm = "[]" and m = 0]
  have h1: "(- 1 :: int) < 0 \<and> (- 2 :: int) < 0" by simp
  have h2: "shorten_asm ?d (Some (- 1)) = Some (Inr ?e)"
    by (rule deploy_shorten_asm) simp_all
  have h3: "(- 1 :: int) < 0 \<and> shorten_asm ?d (Some (- 1)) = Some (Inr ?e)"
    using h2 by simp
  note c1 = mp [OF conjunct1 [OF conjunct2 [OF conjunct2 [OF t]]] h1]
  note c2 = mp [OF conjunct1 [OF conjunct2 [OF conjunct2 [OF conjunct2 [OF t]]]] h3]
  show ?thesis by (intro conjI h1 h2 c1 c2 conjunct1 [OF h1] conjunct2 [OF h1])
qed

subsection \<open>A stream that needs 101 passes\<close>

lemma mark_ids_append: "mark_ids (xs @ ys) = mark_ids xs @ mark_ids ys"
proof (induction xs)
  case Nil
  then show ?case by simp
next
  case (Cons x xs)
  then show ?case by (cases x) simp_all
qed

lemma chain_marks_neq [simp]:
  "(chain_start j = chain_start k) = (j = k)" "(chain_end j = chain_end k) = (j = k)"
  "chain_start j \<noteq> chain_end k" "chain_end j \<noteq> chain_start k"
  by (simp_all add: chain_start_def chain_end_def)

lemma set_mark_ids_chain_regions:
  "set (mark_ids (chain_regions w n)) = chain_start ` {..n} \<union> chain_end ` {..n}"
proof (induction n)
  case 0
  then show ?case by auto
next
  case (Suc n)
  have "{..Suc n} = insert (Suc n) {..n}" by (rule atMost_Suc)
  with Suc show ?case by (simp add: mark_ids_append) blast
qed

lemma distinct_mark_ids_chain_regions: "distinct (mark_ids (chain_regions w n))"
proof (induction n)
  case 0
  then show ?case by simp
next
  case (Suc n)
  then show ?case by (auto simp: mark_ids_append set_mark_ids_chain_regions)
qed

lemma distinct_mark_ids_chain_solid: "distinct (mark_ids (chain_solid w n))"
  by (simp add: chain_solid_def distinct_mark_ids_chain_regions)

lemma delta_between:
  assumes "distinct (mark_ids (pre @ Mark start # mid @ Mark end' # post))"
  shows "ref_value (get_solid_offsets (pre @ Mark start # mid @ Mark end' # post))
           (MarkDeltaRef start end') = Inr (sum_list (map get_size mid))"
proof -
  let ?s = "pre @ Mark start # mid @ Mark end' # post"
  have i: "length pre < length ?s" "?s ! length pre = Mark start" by simp_all
  have "?s = (pre @ Mark start # mid) @ Mark end' # post" by simp
  then have "?s ! length (pre @ Mark start # mid) = Mark end'" by (metis nth_append_length)
  then have j: "length pre + 1 + length mid < length ?s"
    "?s ! (length pre + 1 + length mid) = Mark end'" by simp_all
  have "take (length pre) ?s = pre" by simp
  then have s: "get_solid_offsets ?s start = Some (sum_list (map get_size pre))"
    using get_solid_offsets_at [OF assms i] by simp
  have "take (length pre + 1 + length mid) ?s = pre @ Mark start # mid" by simp
  then have e: "get_solid_offsets ?s end'
      = Some (sum_list (map get_size pre) + sum_list (map get_size mid))"
    using get_solid_offsets_at [OF assms j] by simp
  from s e show ?thesis by (simp add: lookup_def)
qed

lemma label_before_between: "label_before (pre @ Mark start # mid @ Mark end' # post) start end'"
proof -
  let ?s = "pre @ Mark start # mid @ Mark end' # post"
  have "?s ! length pre = Mark start" by simp
  moreover have "?s = (pre @ Mark start # mid) @ Mark end' # post" by simp
  then have "?s ! length (pre @ Mark start # mid) = Mark end'" by (metis nth_append_length)
  moreover have "length pre < length (pre @ Mark start # mid)"
    "length (pre @ Mark start # mid) < length ?s" by simp_all
  ultimately show ?thesis unfolding label_before_def by blast
qed

lemma chain_ref_value:
  "distinct (mark_ids (pre @ chain_regions w n)) \<Longrightarrow> k \<le> n \<Longrightarrow>
     ref_value (get_solid_offsets (pre @ chain_regions w n))
       (MarkDeltaRef (chain_start k) (chain_end k)) = Inr (chain_value w k)"
proof (induction n arbitrary: pre)
  case 0
  then have d: "distinct (mark_ids (pre @ Mark (chain_start 0) # [Bytes (replicate 255 0)]
      @ Mark (chain_end 0) # []))" by simp
  from delta_between [OF d] 0(2) show ?case by simp
next
  case (Suc n)
  show ?case
  proof (cases "k = Suc n")
    case True
    from Suc.prems(1) have d: "distinct (mark_ids (pre @ Mark (chain_start (Suc n))
        # [Bytes (replicate 253 0), Ref (SizedRef (MarkDeltaRef (chain_start n) (chain_end n)) (w n))]
        @ Mark (chain_end (Suc n)) # chain_regions w n))" by simp
    from delta_between [OF d] True show ?thesis by simp
  next
    case False
    with Suc.prems(2) have k: "k \<le> n" by simp
    let ?pre = "pre @ [Mark (chain_start (Suc n)), Bytes (replicate 253 0),
        Ref (SizedRef (MarkDeltaRef (chain_start n) (chain_end n)) (w n)),
        Mark (chain_end (Suc n))]"
    have eq: "pre @ chain_regions w (Suc n) = ?pre @ chain_regions w n" by simp
    from Suc.prems(1) have "distinct (mark_ids (?pre @ chain_regions w n))"
      by (simp only: eq)
    from Suc.IH [OF this k] show ?thesis by (simp only: eq)
  qed
qed

lemma chain_solid_ref_value:
  "k \<le> n \<Longrightarrow>
     ref_value (get_solid_offsets (chain_solid w n))
       (MarkDeltaRef (chain_start k) (chain_end k)) = Inr (chain_value w k)"
  using chain_ref_value [of "[Ref (SizedRef (MarkDeltaRef (chain_start n) (chain_end n)) (w n))]" w n k]
    distinct_mark_ids_chain_solid [of w n]
  by (simp add: chain_solid_def)

lemma shorten_steps_chain_regions:
  assumes "\<And>k. k < n \<Longrightarrow>
      ref_value mo (MarkDeltaRef (chain_start k) (chain_end k)) = Inr (chain_value w k)"
  shows "shorten_steps mo (chain_regions w n)
     = Inr (\<exists>k < n. needed_bytes (chain_value w k) \<noteq> w k,
            chain_regions (\<lambda>k. needed_bytes (chain_value w k)) n)"
  using assms
proof (induction n)
  case 0
  then show ?case by simp
next
  case (Suc n)
  have v: "ref_value mo (MarkDeltaRef (chain_start n) (chain_end n)) = Inr (chain_value w n)"
    using Suc.prems [of n] by simp
  have ih: "shorten_steps mo (chain_regions w n)
     = Inr (\<exists>k < n. needed_bytes (chain_value w k) \<noteq> w k,
            chain_regions (\<lambda>k. needed_bytes (chain_value w k)) n)"
    using Suc.prems by (intro Suc.IH) simp
  have ex: "(\<exists>k < Suc n. needed_bytes (chain_value w k) \<noteq> w k)
      = (needed_bytes (chain_value w n) \<noteq> w n \<or> (\<exists>k < n. needed_bytes (chain_value w k) \<noteq> w k))"
    by (auto simp: less_Suc_eq)
  show ?case
    unfolding ex
    by (cases "needed_bytes (chain_value w n) = w n")
       (simp_all add: v ih Let_def set_size_def del: ref_value.simps)
qed

lemma shorten_steps_chain_solid:
  assumes v: "\<And>k. k \<le> n \<Longrightarrow>
      ref_value mo (MarkDeltaRef (chain_start k) (chain_end k)) = Inr (chain_value w k)"
  shows "shorten_steps mo (chain_solid w n)
     = Inr (\<exists>k \<le> n. needed_bytes (chain_value w k) \<noteq> w k,
            chain_solid (\<lambda>k. needed_bytes (chain_value w k)) n)"
proof -
  have r: "shorten_steps mo (chain_regions w n)
     = Inr (\<exists>k < n. needed_bytes (chain_value w k) \<noteq> w k,
            chain_regions (\<lambda>k. needed_bytes (chain_value w k)) n)"
    by (rule shorten_steps_chain_regions) (rule v, simp)
  have ex: "(\<exists>k \<le> n. needed_bytes (chain_value w k) \<noteq> w k)
      = (needed_bytes (chain_value w n) \<noteq> w n \<or> (\<exists>k < n. needed_bytes (chain_value w k) \<noteq> w k))"
    by (auto simp: le_less)
  have vn: "ref_value mo (MarkDeltaRef (chain_start n) (chain_end n)) = Inr (chain_value w n)"
    by (rule v) simp
  show ?thesis
    unfolding ex chain_solid_def
    by (cases "needed_bytes (chain_value w n) = w n")
       (simp_all add: vn r Let_def set_size_def del: ref_value.simps)
qed

lemma shorten_asm_once_chain:
  "shorten_asm_once (chain_solid w n)
     = Inr (\<exists>k \<le> n. needed_bytes (chain_value w k) \<noteq> w k,
            chain_solid (\<lambda>k. needed_bytes (chain_value w k)) n)"
  unfolding shorten_asm_once_def
  by (rule shorten_steps_chain_solid) (rule chain_solid_ref_value)

lemma needed_bytes_255: "needed_bytes 255 = 1"
  by (rule needed_bytes_small) simp_all

lemma needed_bytes_256: "needed_bytes 256 = 2"
  using needed_bytes_eq [of 256 1] by simp

lemma stage_step: "needed_bytes (chain_value (stage j) k) = stage (Suc j) k"
  by (cases k) (simp_all add: stage_def needed_bytes_255 needed_bytes_256)

lemma shorten_asm_once_stage:
  "shorten_asm_once (chain_solid (stage j) n) = Inr (j \<le> n, chain_solid (stage (Suc j)) n)"
proof -
  have "(\<exists>k \<le> n. stage (Suc j) k \<noteq> stage j k) = (j \<le> n)"
    by (auto simp: stage_def less_Suc_eq)
  then show ?thesis
    using shorten_asm_once_chain [of "stage j" n] by (simp add: stage_step)
qed

lemma chain_loop_budget:
  "j + m \<le> Suc n \<Longrightarrow>
     shorten_asm_loop True (int m) (chain_solid (stage j) n)
       = Some (Inr (chain_solid (stage (j + m)) n))"
proof (induction m arbitrary: j)
  case 0
  show ?case by (subst shorten_asm_loop.simps) simp
next
  case (Suc m)
  then have j: "j \<le> n" and r: "Suc j + m \<le> Suc n" by simp_all
  have "shorten_asm_loop True (int (Suc m)) (chain_solid (stage j) n)
      = shorten_asm_loop True (int m) (chain_solid (stage (Suc j)) n)"
    using j by (subst shorten_asm_loop.simps) (simp add: shorten_asm_once_stage)
  also have "\<dots> = Some (Inr (chain_solid (stage (Suc j + m)) n))" using r by (rule Suc.IH)
  finally show ?case by simp
qed

lemma chain_loop_unbounded:
  "b < 0 \<Longrightarrow> j \<le> Suc n \<Longrightarrow>
     shorten_asm_loop True b (chain_solid (stage j) n)
       = Some (Inr (chain_solid (stage (Suc n)) n))"
proof (induction d \<equiv> "Suc n - j" arbitrary: j b)
  case 0
  then have j: "j = Suc n" by simp
  have once: "shorten_asm_once (chain_solid (stage (Suc n)) n)
      = Inr (False, chain_solid (stage (Suc (Suc n))) n)"
    using shorten_asm_once_stage [of "Suc n" n] by simp
  then have same: "chain_solid (stage (Suc (Suc n))) n = chain_solid (stage (Suc n)) n"
    by (rule shorten_asm_once_unchanged)
  have "shorten_asm_loop True b (chain_solid (stage (Suc n)) n)
      = shorten_asm_loop False (b - 1) (chain_solid (stage (Suc n)) n)"
    using 0(2) once same by (subst shorten_asm_loop.simps) simp
  also have "\<dots> = Some (Inr (chain_solid (stage (Suc n)) n))"
    by (subst shorten_asm_loop.simps) simp
  finally show ?case using j by simp
next
  case (Suc d)
  then have j: "j \<le> n" and d: "d = Suc n - Suc j" by simp_all
  have "shorten_asm_loop True b (chain_solid (stage j) n)
      = shorten_asm_loop True (b - 1) (chain_solid (stage (Suc j)) n)"
    using j Suc.prems(1) by (subst shorten_asm_loop.simps) (simp add: shorten_asm_once_stage)
  also have "\<dots> = Some (Inr (chain_solid (stage (Suc n)) n))"
    using d Suc.prems(1) j by (intro Suc.hyps(1)) simp_all
  finally show ?case .
qed

lemma chain_label_before:
  "k \<le> n \<Longrightarrow> label_before (pre @ chain_regions w n) (chain_start k) (chain_end k)"
proof (induction n arbitrary: pre)
  case 0
  have "label_before (pre @ Mark (chain_start 0) # [Bytes (replicate 255 0)]
      @ Mark (chain_end 0) # []) (chain_start 0) (chain_end 0)"
    by (rule label_before_between)
  with 0 show ?case by simp
next
  case (Suc n)
  show ?case
  proof (cases "k = Suc n")
    case True
    have "label_before (pre @ Mark (chain_start (Suc n))
        # [Bytes (replicate 253 0), Ref (SizedRef (MarkDeltaRef (chain_start n) (chain_end n)) (w n))]
        @ Mark (chain_end (Suc n)) # chain_regions w n) (chain_start (Suc n)) (chain_end (Suc n))"
      by (rule label_before_between)
    with True show ?thesis by simp
  next
    case False
    with Suc.prems have k: "k \<le> n" by simp
    let ?pre = "pre @ [Mark (chain_start (Suc n)), Bytes (replicate 253 0),
        Ref (SizedRef (MarkDeltaRef (chain_start n) (chain_end n)) (w n)),
        Mark (chain_end (Suc n))]"
    have eq: "pre @ chain_regions w (Suc n) = ?pre @ chain_regions w n" by simp
    from Suc.IH [OF k, of ?pre] show ?thesis by (simp only: eq)
  qed
qed

lemma chain_regions_refs:
  "Ref r \<in> set (chain_regions w n) \<Longrightarrow>
     \<exists>k < n. r = SizedRef (MarkDeltaRef (chain_start k) (chain_end k)) (w k)"
proof (induction n)
  case 0
  then show ?case by simp
next
  case (Suc n)
  then show ?case by (auto simp: less_Suc_eq)
qed

lemma chain_solid_refs:
  "Ref r \<in> set (chain_solid w n) \<Longrightarrow>
     \<exists>k \<le> n. r = SizedRef (MarkDeltaRef (chain_start k) (chain_end k)) (w k)"
  using chain_regions_refs [of r w n] by (auto simp: chain_solid_def le_less)

lemma well_formed_chain_asm: "well_formed (chain_asm n)"
proof -
  let ?s = "chain_solid (\<lambda>k. 0) n"
  have d: "distinct (mark_ids (chain_asm n))"
    by (simp add: chain_asm_def distinct_mark_ids_chain_solid)
  have ids: "set (mark_ids (chain_asm n)) = chain_start ` {..n} \<union> chain_end ` {..n}"
    by (simp add: chain_asm_def chain_solid_def set_mark_ids_chain_regions)
  have lb: "label_before (chain_asm n) (chain_start k) (chain_end k)" if "k \<le> n" for k
  proof -
    have "label_before ?s (chain_start k) (chain_end k)"
      using chain_label_before [OF that,
          of "[Ref (SizedRef (MarkDeltaRef (chain_start n) (chain_end n)) 0)]" "\<lambda>k. 0"]
      by (simp add: chain_solid_def)
    then show ?thesis unfolding chain_asm_def by (simp only: label_before_map_step)
  qed
  have "ref_ok (chain_asm n) step" if "step \<in> set (chain_asm n)" for step
  proof (cases step)
    case (Ref r)
    with that obtain x where x: "x \<in> set ?s" "map_step ref x = Ref r"
      unfolding chain_asm_def by auto
    from x(2) obtain sr where sr: "x = Ref sr" "ref sr = r" by (cases x) auto
    with x(1) obtain k where k: "k \<le> n" "sr = SizedRef (MarkDeltaRef (chain_start k) (chain_end k)) 0"
      using chain_solid_refs [of sr "\<lambda>k. 0" n] by auto
    with sr have r: "r = MarkDeltaRef (chain_start k) (chain_end k)" by simp
    from k(1) ids have "chain_start k \<in> set (mark_ids (chain_asm n))"
      "chain_end k \<in> set (mark_ids (chain_asm n))" by auto
    with lb [OF k(1)] Ref r show ?thesis by (simp add: mark_in_ids)
  qed simp_all
  with d show ?thesis by (simp add: well_formed_def list_all_iff)
qed

lemma chain_regions_static:
  "sum_list (map (min_static_size \<circ> map_step ref) (chain_regions w n)) = 255 + 254 * int n"
  "length (filter (is_ref \<circ> map_step ref) (chain_regions w n)) = n"
  by (induction n) simp_all

lemma chain_asm_static:
  "static_length (chain_asm n) = 256 + 254 * int n"
  "reference_count (chain_asm n) = int n + 1"
  by (simp_all add: static_length_code reference_count_code chain_asm_def chain_solid_def
      chain_regions_static)

lemma chain_regions_sized:
  "map (map_step (\<lambda>r. SizedRef r c)) (map (map_step ref) (chain_regions w n))
     = chain_regions (\<lambda>k. c) n"
  by (induction n) simp_all

lemma chain_asm_sized:
  "map (map_step (\<lambda>r. SizedRef r c)) (chain_asm n) = chain_solid (\<lambda>k. c) n"
  using chain_regions_sized [of c "\<lambda>k. 0" n] by (simp add: chain_asm_def chain_solid_def)

lemma asm_to_solid_chain_100: "asm_to_solid (chain_asm 100) = Inr (chain_solid (stage 0) 100)"
proof -
  have "dest_bytes_loop 25656 101 1 = 2" by (simp add: dest_bytes_loop.simps)
  then have "get_min_static_size_bytes (chain_asm 100) = 2"
    by (simp add: get_min_static_size_bytes_loop chain_asm_static)
  moreover have "stage 0 = (\<lambda>k. 2)" by (rule ext) (simp add: stage_def)
  ultimately show ?thesis by (simp add: asm_to_solid_def chain_asm_sized)
qed

lemma ref_fits_chain_regions:
  assumes "\<And>k. k < n \<Longrightarrow>
      ref_value mo (MarkDeltaRef (chain_start k) (chain_end k)) = Inr (chain_value w k)"
    and "\<And>k. k < n \<Longrightarrow> 0 \<le> w k \<and> 0 \<le> chain_value w k \<and> chain_value w k < 256 ^ nat (w k)"
  shows "list_all (ref_fits mo) (chain_regions w n)"
  using assms
proof (induction n)
  case 0
  then show ?case by simp
next
  case (Suc n)
  have "list_all (ref_fits mo) (chain_regions w n)"
    using Suc.prems by (intro Suc.IH) simp_all
  with Suc.prems(1) [of n] Suc.prems(2) [of n] show ?case
    by (simp del: ref_value.simps)
qed

lemma ref_fits_chain_solid:
  assumes v: "\<And>k. k \<le> n \<Longrightarrow>
      ref_value mo (MarkDeltaRef (chain_start k) (chain_end k)) = Inr (chain_value w k)"
    and f: "\<And>k. k \<le> n \<Longrightarrow> 0 \<le> w k \<and> 0 \<le> chain_value w k \<and> chain_value w k < 256 ^ nat (w k)"
  shows "list_all (ref_fits mo) (chain_solid w n)"
proof -
  have "list_all (ref_fits mo) (chain_regions w n)"
    by (rule ref_fits_chain_regions) (rule v, simp, rule f, simp)
  with v [of n] f [of n] show ?thesis by (simp add: chain_solid_def del: ref_value.simps)
qed

lemma stage_fits:
  "0 \<le> stage j k \<and> 0 \<le> chain_value (stage j) k
     \<and> chain_value (stage j) k < 256 ^ nat (stage j k)"
  by (cases k) (auto simp: stage_def)

lemma chain_stage_emit:
  "\<exists>out. solid_asm_to_bytecode push_op (chain_solid (stage j) n) = Inr out
     \<and> int (length out) = 1 + stage j n + sum_list (map get_size (chain_regions (stage j) n))"
proof -
  let ?s = "chain_solid (stage j) n"
  have "list_all (ref_fits (get_solid_offsets ?s)) ?s"
    by (rule ref_fits_chain_solid) (rule chain_solid_ref_value, assumption, rule stage_fits)
  then obtain out where o: "emit_steps push_op (get_solid_offsets ?s) [] ?s = Inr out"
    using emit_steps_fits by blast
  from emit_steps_length [OF o] have "int (length out) = sum_list (map get_size ?s)" by simp
  then have "int (length out)
      = 1 + stage j n + sum_list (map get_size (chain_regions (stage j) n))"
    by (simp add: chain_solid_def)
  with o show ?thesis by (simp add: solid_asm_to_bytecode_def)
qed

lemma chain_regions_cong:
  "(\<And>k. k < n \<Longrightarrow> w k = w' k) \<Longrightarrow> chain_regions w n = chain_regions w' n"
  by (induction n) simp_all

text \<open>
  C6 as stated fails: on the chain of 101 references the default budget and the budget 100
  give different bytecode. The widths start at 2 and each pass brings one more reference
  down to 1; a budget of 100 stops one pass short.
\<close>

theorem default_budget_counterexample:
  "asm_to_bytecode (\<lambda>n. of_nat (95 + n)) (chain_asm 100) None
     \<noteq> asm_to_bytecode (\<lambda>n. of_nat (95 + n)) (chain_asm 100) (Some 100)"
proof -
  let ?p = "\<lambda>n. of_nat (95 + n) :: byte"
  have v: "validate_asm (chain_asm 100) = Inr ()"
    by (simp add: validate_asm_well_formed well_formed_chain_asm)
  have unb: "shorten_asm (chain_solid (stage 0) 100) (Some (- 1))
      = Some (Inr (chain_solid (stage 101) 100))"
    using chain_loop_unbounded [of "- 1" 0 100] by (simp add: shorten_asm_def)
  have bud: "shorten_asm (chain_solid (stage 0) 100) (Some 100)
      = Some (Inr (chain_solid (stage 100) 100))"
    using chain_loop_budget [of 0 100 100] by (simp add: shorten_asm_def)
  have a: "asm_to_bytecode ?p (chain_asm 100) None
      = Some (solid_asm_to_bytecode ?p (chain_solid (stage 101) 100))"
    by (simp add: asm_to_bytecode_def v asm_to_solid_chain_100 unb)
  have b: "asm_to_bytecode ?p (chain_asm 100) (Some 100)
      = Some (solid_asm_to_bytecode ?p (chain_solid (stage 100) 100))"
    by (simp add: asm_to_bytecode_def v asm_to_solid_chain_100 bud)
  from chain_stage_emit [of ?p 101 100] obtain out1 where
    o1: "solid_asm_to_bytecode ?p (chain_solid (stage 101) 100) = Inr out1"
    "int (length out1) = 1 + stage 101 100
       + sum_list (map get_size (chain_regions (stage 101) 100))" by blast
  from chain_stage_emit [of ?p 100 100] obtain out2 where
    o2: "solid_asm_to_bytecode ?p (chain_solid (stage 100) 100) = Inr out2"
    "int (length out2) = 1 + stage 100 100
       + sum_list (map get_size (chain_regions (stage 100) 100))" by blast
  have "chain_regions (stage 101) 100 = chain_regions (stage 100) 100"
    by (rule chain_regions_cong) (simp add: stage_def)
  with o1(2) o2(2) have "int (length out2) = int (length out1) + 1" by (simp add: stage_def)
  then have "out1 \<noteq> out2" by auto
  with a b o1(1) o2(1) show ?thesis by simp
qed

end
